theory Spec2Isabelle
  imports Complex_Main "HOL-Library.Multiset"
begin

section \<open>Strings as the JavaScript code uses them\<close>

text \<open>
  Strings are lists of characters. The regular expressions and string methods the
  services use are modelled on ASCII text: \<open>\s\<close> is one of the six ASCII white-space
  characters, \<open>\w\<close> is a letter, a digit or the underscore, and \<open>toLowerCase\<close> maps
  \<open>A\<close>..\<open>Z\<close> to \<open>a\<close>..\<open>z\<close>. Any other character is neither white space nor a word
  character and is left unchanged by \<open>toLowerCase\<close>.
\<close>

definition is_space :: "char \<Rightarrow> bool" where
  "is_space c = (c \<in> set [CHR 0x09, CHR 0x0A, CHR 0x0B, CHR 0x0C, CHR 0x0D, CHR 0x20])"

definition lower_chars :: string where
  "lower_chars = ''abcdefghijklmnopqrstuvwxyz''"

definition upper_chars :: string where
  "upper_chars = ''ABCDEFGHIJKLMNOPQRSTUVWXYZ''"

definition digit_chars :: string where
  "digit_chars = ''0123456789''"

definition is_lower :: "char \<Rightarrow> bool" where
  "is_lower c = (c \<in> set lower_chars)"

definition is_upper :: "char \<Rightarrow> bool" where
  "is_upper c = (c \<in> set upper_chars)"

definition is_digit :: "char \<Rightarrow> bool" where
  "is_digit c = (c \<in> set digit_chars)"

definition is_word_char :: "char \<Rightarrow> bool" where
  "is_word_char c = (is_lower c \<or> is_upper c \<or> is_digit c \<or> c = CHR ''_'')"

definition to_lower :: "char \<Rightarrow> char" where
  "to_lower c = (case map_of (zip upper_chars lower_chars) c of Some d \<Rightarrow> d | None \<Rightarrow> c)"

definition toLowerCase :: "string \<Rightarrow> string" where
  "toLowerCase s = map to_lower s"

text \<open>\<open>String.prototype.trim\<close>: white space is removed at both ends.\<close>

definition trim :: "string \<Rightarrow> string" where
  "trim s = rev (dropWhile is_space (rev (dropWhile is_space s)))"

text \<open>
  \<open>s.split(re)\<close> for a pattern \<open>re\<close> that matches the non-empty runs of separator
  characters: the pieces between the maximal runs. A run at the start or at the end of
  the string leaves an empty piece there, and the empty string splits into the single
  empty piece. The flag says that the scan is inside a run.
\<close>

fun split_runs_from :: "(char \<Rightarrow> bool) \<Rightarrow> bool \<Rightarrow> string \<Rightarrow> string \<Rightarrow> string list" where
  "split_runs_from sep in_run cur [] = [cur]"
| "split_runs_from sep in_run cur (c # cs) =
     (if sep c
      then (if in_run then split_runs_from sep True cur cs
            else cur # split_runs_from sep True [] cs)
      else split_runs_from sep False (cur @ [c]) cs)"

text \<open>\<open>s.split(/\s+/)\<close>.\<close>

definition split_ws :: "string \<Rightarrow> string list" where
  "split_ws s = split_runs_from is_space False [] s"

text \<open>
  The words of a string as the specification counts them: the maximal runs of
  characters that are not white space. No word is empty.
\<close>

fun words_from :: "string \<Rightarrow> string \<Rightarrow> string list" where
  "words_from cur [] = (if cur = [] then [] else [cur])"
| "words_from cur (c # cs) =
     (if is_space c
      then (if cur = [] then words_from [] cs else cur # words_from [] cs)
      else words_from (cur @ [c]) cs)"

definition ws_words :: "string \<Rightarrow> string list" where
  "ws_words s = words_from [] s"

text \<open>
  The union of a sequence with itself in first-seen order, as the specification words
  it: every element is kept where it occurs first and dropped everywhere after.
\<close>

fun first_seen :: "'a list \<Rightarrow> 'a list" where
  "first_seen [] = []"
| "first_seen (x # xs) = x # first_seen (filter (\<lambda>y. y \<noteq> x) xs)"


text \<open>\<open>s.includes(t)\<close>: \<open>t\<close> occurs in \<open>s\<close> as a contiguous substring.\<close>

fun js_includes :: "string \<Rightarrow> string \<Rightarrow> bool" where
  "js_includes [] t = (t = [])"
| "js_includes (c # cs) t = (take (length t) (c # cs) = t \<or> js_includes cs t)"

text \<open>\<open>xs.join(sep)\<close>.\<close>

fun join :: "string \<Rightarrow> string list \<Rightarrow> string" where
  "join sep [] = []"
| "join sep [x] = x"
| "join sep (x # y # ys) = x @ sep @ join sep (y # ys)"

text \<open>
  \<open>[...new Set(xs)]\<close>: a \<open>Set\<close> keeps its elements in insertion order and ignores the
  insertion of an element it already holds.
\<close>

definition set_add :: "'a list \<Rightarrow> 'a \<Rightarrow> 'a list" where
  "set_add acc x = (if x \<in> set acc then acc else acc @ [x])"

definition new_Set :: "'a list \<Rightarrow> 'a list" where
  "new_Set xs = foldl set_add [] xs"

text \<open>Decimal digits of a natural number, as a template literal prints it.\<close>

fun show_nat :: "nat \<Rightarrow> string" where
  "show_nat n =
     (if n < 10 then [digit_chars ! n] else show_nat (n div 10) @ [digit_chars ! (n mod 10)])"

declare show_nat.simps [simp del]

section \<open>JavaScript numbers and values\<close>

text \<open>
  A number is a rational, or one of the three special values of IEEE arithmetic that
  the code can produce. Rounding of finite results is not modelled.
\<close>

datatype jsnum = NaN | PosInf | NegInf | Num rat

text \<open>\<open>a / b\<close> for two non-negative integers (a sum of lengths, a count).\<close>

definition js_div :: "nat \<Rightarrow> nat \<Rightarrow> jsnum" where
  "js_div a b =
     (if b = 0 then (if a = 0 then NaN else PosInf) else Num (of_nat a / of_nat b))"

section \<open>The query processor (QueryRewriter)\<close>

definition queryExpansions :: "(string \<times> string list) list" where
  "queryExpansions =
     [(''install'', [''setup'', ''configuration'', ''getting started'']),
      (''error'', [''issue'', ''problem'', ''troubleshoot'', ''fix'']),
      (''config'', [''configuration'', ''settings'', ''preferences'', ''options'']),
      (''api'', [''interface'', ''endpoint'', ''call'', ''integration'']),
      (''auth'', [''authentication'', ''authorization'', ''login'', ''security'']),
      (''performance'', [''speed'', ''optimization'', ''efficiency'', ''benchmark'']),
      (''deploy'', [''deployment'', ''release'', ''publish'', ''ship'']),
      (''upgrade'', [''update'', ''migration'', ''version'', ''change'']),
      (''monitor'', [''track'', ''observe'', ''watch'', ''metrics'', ''logging'']),
      (''backup'', [''restore'', ''recovery'', ''archive'', ''save''])]"

definition stopWords :: "string list" where
  "stopWords =
     [''the'', ''a'', ''an'', ''and'', ''or'', ''but'', ''in'', ''on'', ''at'', ''to'',
      ''for'', ''of'', ''with'', ''by'']"

record processed_query =
  original :: string
  expanded :: string
  terms :: "string list"
  expansions :: "string list"

text \<open>
  The \<open>forEach\<close> over the keys of \<open>queryExpansions\<close>: the related terms of every trigger
  word that occurs in the rewritten query, in the order of the table.
\<close>

definition expand_terms :: "string \<Rightarrow> string list" where
  "expand_terms rewrittenQuery =
     concat (map snd (filter (\<lambda>(term, related). js_includes rewrittenQuery term) queryExpansions))"

definition query_words :: "string \<Rightarrow> string list" where
  "query_words rewrittenQuery = filter (\<lambda>word. word \<notin> set stopWords) (split_ws rewrittenQuery)"

definition rewriteQuery :: "string \<Rightarrow> processed_query" where
  "rewriteQuery query =
     (let originalQuery = trim query;
          rewrittenQuery = toLowerCase originalQuery;
          exps = expand_terms rewrittenQuery;
          words = query_words rewrittenQuery;
          allTerms = new_Set (words @ exps)
      in \<lparr>original = originalQuery, expanded = join '' '' allTerms, terms = allTerms,
          expansions = exps\<rparr>)"

text \<open>The five patterns of \<open>isTechnicalTerm\<close>, in the order of the source.\<close>

definition is_camelCase :: "string \<Rightarrow> bool" where
  "is_camelCase term =
     (takeWhile is_lower term \<noteq> [] \<and>
      (case dropWhile is_lower term of
         [] \<Rightarrow> False
       | c # cs \<Rightarrow> is_upper c \<and> list_all (\<lambda>d. is_lower d \<or> is_upper d) cs))"

definition is_SCREAMING :: "string \<Rightarrow> bool" where
  "is_SCREAMING term = (term \<noteq> [] \<and> list_all (\<lambda>c. is_upper c \<or> c = CHR ''_'') term)"

fun has_two_digits :: "string \<Rightarrow> bool" where
  "has_two_digits (c # d # cs) = ((is_digit c \<and> is_digit d) \<or> has_two_digits (d # cs))"
| "has_two_digits _ = False"

definition file_extensions :: "string list" where
  "file_extensions =
     [''com'', ''org'', ''net'', ''io'', ''js'', ''py'', ''java'', ''html'', ''css'', ''sql'']"

definition ends_with :: "string \<Rightarrow> string \<Rightarrow> bool" where
  "ends_with s t = (length t \<le> length s \<and> drop (length s - length t) s = t)"

definition has_extension :: "string \<Rightarrow> bool" where
  "has_extension term = list_ex (\<lambda>e. ends_with term (''.'' @ e)) file_extensions"

definition acronyms :: "string list" where
  "acronyms =
     [''api'', ''sdk'', ''cli'', ''gui'', ''ui'', ''ux'', ''http'', ''https'', ''url'', ''uri'',
      ''json'', ''xml'', ''yaml'', ''toml'', ''env'', ''cfg'']"

definition isTechnicalTerm :: "string \<Rightarrow> bool" where
  "isTechnicalTerm term =
     (is_camelCase term \<or> is_SCREAMING term \<or> has_two_digits term \<or> has_extension term \<or>
      term \<in> set acronyms)"

record complexity =
  termCount :: nat
  averageLength :: jsnum
  hasTechnicalTerms :: bool
  isComplex :: bool

definition analyzeQueryComplexity :: "string list \<Rightarrow> complexity" where
  "analyzeQueryComplexity ts =
     \<lparr>termCount = length ts,
      averageLength = js_div (foldl (\<lambda>sum term. sum + length term) 0 ts) (length ts),
      hasTechnicalTerms = list_ex isTechnicalTerm ts,
      isComplex = (length ts > 3 \<or> list_ex (\<lambda>term. length term > 15) ts)\<rparr>"

record search_query =
  originalQuery :: string
  searchQuery :: string
  topK :: nat
  expansionTerms :: "string list"
  queryComplexity :: complexity

definition prepareSearchQuery :: "string \<Rightarrow> nat \<Rightarrow> search_query" where
  "prepareSearchQuery query top_k =
     (let processed = rewriteQuery query
      in \<lparr>originalQuery = original processed,
          searchQuery = expanded processed,
          topK = min (top_k + 2) 20,
          expansionTerms = expansions processed,
          queryComplexity = analyzeQueryComplexity (terms processed)\<rparr>)"

section \<open>Retrieval results\<close>

text \<open>
  A raw result as the retrieval backend returns it. A field that may be missing is an
  option (\<open>None\<close> is \<open>undefined\<close>). A similarity score is a finite number, modelled
  as a rational: the comparisons of the code against \<open>0.1\<close> and \<open>0.9\<close> and its
  subtractions of scores have the same outcome on rationals as on IEEE doubles for
  word counts and scores of the sizes that occur.
\<close>

record metadata =
  md_source :: "string option"
  md_source_file :: "string option"
  md_document_name :: "string option"
  md_document_id :: "string option"
  md_page :: "nat option"
  md_section :: "string option"
  md_chunk_order :: "nat option"

record raw_result =
  chunk_id :: string
  content :: string
  similarity_score :: rat
  document_id :: "string option"
  metadata :: "metadata option"

definition no_metadata :: metadata where
  "no_metadata =
     \<lparr>md_source = None, md_source_file = None, md_document_name = None,
      md_document_id = None, md_page = None, md_section = None, md_chunk_order = None\<rparr>"

text \<open>\<open>result.metadata?.field\<close>.\<close>

definition md_field :: "(metadata \<Rightarrow> 'a option) \<Rightarrow> metadata option \<Rightarrow> 'a option" where
  "md_field f m = (case m of None \<Rightarrow> None | Some md \<Rightarrow> f md)"

text \<open>
  \<open>a || b\<close> on values that are strings or missing: the empty string and \<open>undefined\<close>
  are falsy. \<open>js_or_str\<close> is the case of a string literal on the right, \<open>truthy_nat\<close>
  the truth value of a number that may be missing, where \<open>0\<close> is falsy.
\<close>

definition truthy_str :: "string option \<Rightarrow> bool" where
  "truthy_str a = (case a of None \<Rightarrow> False | Some s \<Rightarrow> s \<noteq> [])"

definition js_or :: "string option \<Rightarrow> string option \<Rightarrow> string option" where
  "js_or a b = (if truthy_str a then a else b)"

definition js_or_str :: "string option \<Rightarrow> string \<Rightarrow> string" where
  "js_or_str a d = (case a of None \<Rightarrow> d | Some s \<Rightarrow> if s \<noteq> [] then s else d)"

definition truthy_nat :: "nat option \<Rightarrow> bool" where
  "truthy_nat a = (case a of None \<Rightarrow> False | Some n \<Rightarrow> n \<noteq> 0)"

text \<open>
  \<open>[...results].sort((a, b) => b.similarity_score - a.similarity_score)\<close>:
  \<open>Array.prototype.sort\<close> is stable, so this is the stable sort by descending score.
\<close>

definition sort_by_score :: "raw_result list \<Rightarrow> raw_result list" where
  "sort_by_score rs = sort_key (\<lambda>r. - similarity_score r) rs"

section \<open>The result curator: deduplication\<close>

text \<open>\<open>s.match(/\b\w+\b/g) || []\<close>: the maximal runs of word characters.\<close>

fun word_runs_from :: "string \<Rightarrow> string \<Rightarrow> string list" where
  "word_runs_from cur [] = (if cur = [] then [] else [cur])"
| "word_runs_from cur (c # cs) =
     (if is_word_char c then word_runs_from (cur @ [c]) cs
      else if cur = [] then word_runs_from [] cs
      else cur # word_runs_from [] cs)"

definition match_words :: "string \<Rightarrow> string list" where
  "match_words s = word_runs_from [] s"

definition calculateContentSimilarity :: "string \<Rightarrow> string \<Rightarrow> rat" where
  "calculateContentSimilarity content1 content2 =
     (let words1 = new_Set (match_words (toLowerCase content1));
          words2 = new_Set (match_words (toLowerCase content2));
          intersection = new_Set (filter (\<lambda>x. x \<in> set words2) words1);
          union = new_Set (words1 @ words2)
      in if length union > 0 then of_nat (length intersection) / of_nat (length union)
         else 0)"

definition isDuplicate :: "raw_result list \<Rightarrow> raw_result \<Rightarrow> bool" where
  "isDuplicate uniqueResults result =
     list_ex (\<lambda>existing. calculateContentSimilarity (content result) (content existing) > 9 / 10)
       uniqueResults"

definition dedup_step :: "raw_result list \<Rightarrow> raw_result \<Rightarrow> raw_result list" where
  "dedup_step uniqueResults result =
     (if \<not> isDuplicate uniqueResults result then uniqueResults @ [result] else uniqueResults)"

definition deduplicateResults :: "raw_result list \<Rightarrow> raw_result list" where
  "deduplicateResults results =
     (if length results \<le> 1 then results else foldl dedup_step [] results)"

section \<open>The result curator: grouping by document\<close>

text \<open>
  \<open>documentGroups\<close> is a plain object used as a dictionary. Its own properties are an
  association list in insertion order. A key that names a property inherited from
  \<open>Object.prototype\<close> is never absent: \<open>documentGroups[docId]\<close> then reads the
  inherited value, which is truthy and has no \<open>push\<close>, and the call of \<open>push\<close> throws
  a \<open>TypeError\<close>.
\<close>

datatype error = TypeError

definition object_prototype_names :: "string list" where
  "object_prototype_names =
     [''constructor'', ''__defineGetter__'', ''__defineSetter__'', ''hasOwnProperty'',
      ''__lookupGetter__'', ''__lookupSetter__'', ''isPrototypeOf'', ''propertyIsEnumerable'',
      ''toString'', ''valueOf'', ''__proto__'', ''toLocaleString'']"

definition doc_key :: "raw_result \<Rightarrow> string" where
  "doc_key result =
     js_or_str (js_or (document_id result) (md_field md_source (metadata result))) ''unknown''"

type_synonym groups = "(string \<times> raw_result list) list"

definition group_push :: "groups \<Rightarrow> raw_result \<Rightarrow> error + groups" where
  "group_push documentGroups result =
     (let docId = doc_key result
      in case map_of documentGroups docId of
           Some docResults \<Rightarrow>
             Inr (map (\<lambda>(k, v). if k = docId then (k, v @ [result]) else (k, v)) documentGroups)
         | None \<Rightarrow>
             if docId \<in> set object_prototype_names then Inl TypeError
             else Inr (documentGroups @ [(docId, [result])]))"

fun group_all :: "groups \<Rightarrow> raw_result list \<Rightarrow> error + groups" where
  "group_all documentGroups [] = Inr documentGroups"
| "group_all documentGroups (result # results) =
     (case group_push documentGroups result of
        Inl e \<Rightarrow> Inl e
      | Inr documentGroups' \<Rightarrow> group_all documentGroups' results)"

text \<open>
  \<open>Object.entries\<close> lists the keys that are array indices (canonical decimal numerals
  up to \<open>2^32 - 2\<close>) first, in ascending numeric order, and then the other keys in
  insertion order.
\<close>

definition digit_value :: "char \<Rightarrow> int" where
  "digit_value c = int (length (takeWhile (\<lambda>d. d \<noteq> c) digit_chars))"

definition int_of_digits :: "string \<Rightarrow> int" where
  "int_of_digits s = foldl (\<lambda>n c. 10 * n + digit_value c) 0 s"

definition is_array_index :: "string \<Rightarrow> bool" where
  "is_array_index s =
     (s \<noteq> [] \<and> list_all is_digit s \<and> (s = ''0'' \<or> hd s \<noteq> CHR ''0'') \<and>
      int_of_digits s \<le> 4294967294)"

definition object_entries :: "(string \<times> 'a) list \<Rightarrow> (string \<times> 'a) list" where
  "object_entries obj =
     sort_key (\<lambda>(k, v). int_of_digits k) (filter (\<lambda>(k, v). is_array_index k) obj)
     @ filter (\<lambda>(k, v). \<not> is_array_index k) obj"

definition maxChunksPerDocument :: nat where
  "maxChunksPerDocument = 2"

definition limit_groups :: "groups \<Rightarrow> raw_result list" where
  "limit_groups documentGroups =
     concat (map (\<lambda>(docId, docResults). take maxChunksPerDocument docResults)
               (object_entries documentGroups))"

definition groupResultsByDocument :: "raw_result list \<Rightarrow> error + raw_result list" where
  "groupResultsByDocument results =
     (if length results \<le> 1 then Inr results
      else case group_all [] results of
             Inl e \<Rightarrow> Inl e
           | Inr documentGroups \<Rightarrow> Inr (sort_by_score (limit_groups documentGroups)))"

section \<open>The result curator: annotation\<close>

text \<open>\<open>content.split(/[.!?]+/)\<close>, trimmed, without the empty pieces.\<close>

definition is_sentence_end :: "char \<Rightarrow> bool" where
  "is_sentence_end c = (c \<in> set ''.!?'')"

definition extractRelevantSentences :: "string \<Rightarrow> string \<Rightarrow> string list" where
  "extractRelevantSentences cont query =
     (let sentences =
            filter (\<lambda>s. length s > 0) (map trim (split_runs_from is_sentence_end False [] cont));
          queryTerms = filter (\<lambda>t. length t > 2) (split_ws (toLowerCase query));
          relevant =
            filter (\<lambda>sentence. list_ex (\<lambda>term. js_includes (toLowerCase sentence) term) queryTerms)
              sentences
      in take 3 relevant)"

record source_info =
  src_document_id :: "string option"
  src_source_file :: string
  src_page :: "nat option"
  src_section :: string
  src_chunk_order :: nat

record curated_result =
  cr_id :: string
  rank :: nat
  score :: rat
  cr_content :: string
  relevant_extracts :: "string list"
  cr_source :: source_info
  citation :: string
  cr_metadata :: metadata

text \<open>The body of the \<open>map\<close> callback: \<open>index\<close> is the position, counted from 0.\<close>

definition annotate :: "string \<Rightarrow> nat \<Rightarrow> raw_result \<Rightarrow> curated_result" where
  "annotate query index result =
     \<lparr>cr_id = chunk_id result,
      rank = index + 1,
      score = similarity_score result,
      cr_content = content result,
      relevant_extracts = extractRelevantSentences (content result) query,
      cr_source =
        \<lparr>src_document_id = document_id result,
         src_source_file = js_or_str (md_field md_source (metadata result)) ''unknown'',
         src_page =
           (if truthy_nat (md_field md_page (metadata result))
            then md_field md_page (metadata result) else None),
         src_section = js_or_str (md_field md_section (metadata result)) ''general'',
         src_chunk_order =
           (case md_field md_chunk_order (metadata result) of None \<Rightarrow> 0 | Some n \<Rightarrow> n)\<rparr>,
      citation =
        ''['' @ show_nat (index + 1) @ ''] Source: ''
        @ js_or_str (md_field md_source (metadata result)) ''Unknown Document'',
      cr_metadata = (case metadata result of None \<Rightarrow> no_metadata | Some md \<Rightarrow> md)\<rparr>"

definition formatResultsWithCitations ::
  "raw_result list \<Rightarrow> string \<Rightarrow> error + curated_result list" where
  "formatResultsWithCitations results query =
     (if length results = 0 then Inr []
      else
        let sortedResults = sort_by_score results;
            deduplicatedResults = deduplicateResults sortedResults
        in case groupResultsByDocument deduplicatedResults of
             Inl e \<Rightarrow> Inl e
           | Inr groupedResults \<Rightarrow>
               Inr (map (\<lambda>(index, result). annotate query index result)
                      (enumerate 0 groupedResults)))"

section \<open>Jaccard similarity as the specification words it\<close>

text \<open>
  The word set of a content and the Jaccard similarity of two sets:
  \<open>|A \<inter> B| / |A \<union> B|\<close>, and 0 when the union is empty.
\<close>

definition word_set :: "string \<Rightarrow> string set" where
  "word_set c = set (match_words (toLowerCase c))"

definition jaccard :: "string set \<Rightarrow> string set \<Rightarrow> rat" where
  "jaccard A B = (if A \<union> B = {} then 0 else of_nat (card (A \<inter> B)) / of_nat (card (A \<union> B)))"

text \<open>The document key of a curated result, read from the fields it carries over.\<close>

definition cr_doc_key :: "curated_result \<Rightarrow> string" where
  "cr_doc_key c =
     js_or_str (js_or (src_document_id (cr_source c)) (md_source (cr_metadata c))) ''unknown''"

text \<open>
  The order in which the document groups are listed, as a function of the document keys
  of the grouped results in their order: of the keys in order of first appearance, those
  that are array indices come first, in ascending numeric order, and the other keys
  follow in order of first appearance.
\<close>

definition group_order :: "string list \<Rightarrow> string list" where
  "group_order ks =
     sort_key int_of_digits (filter is_array_index (first_seen ks))
     @ filter (\<lambda>k. \<not> is_array_index k) (first_seen ks)"

section \<open>Example inputs\<close>

text \<open>A raw result with the given chunk id, content, score, document id and metadata.\<close>

definition raw ::
  "string \<Rightarrow> string \<Rightarrow> rat \<Rightarrow> string option \<Rightarrow> metadata option \<Rightarrow> raw_result" where
  "raw i c s d m =
     \<lparr>chunk_id = i, content = c, similarity_score = s, document_id = d, metadata = m\<rparr>"

section \<open>The controller (Orchestrator): formatted results and the quality gate\<close>

text \<open>
  The controller maps every raw result to a formatted result; its \<open>source\<close> is the
  metadata of the raw result.
\<close>

record formatted_result =
  fr_id :: string
  fr_content :: string
  fr_score :: rat
  fr_source :: "metadata option"
  fr_source_file :: "string option"

definition format_result :: "raw_result \<Rightarrow> formatted_result" where
  "format_result result =
     \<lparr>fr_id = chunk_id result,
      fr_content = content result,
      fr_score = similarity_score result,
      fr_source = metadata result,
      fr_source_file =
        js_or (md_field md_source_file (metadata result))
          (md_field md_document_name (metadata result))\<rparr>"

text \<open>\<open>Math.max(...scores)\<close>: the maximum, and \<open>-Infinity\<close> of no scores.\<close>

fun js_max :: "jsnum \<Rightarrow> rat \<Rightarrow> jsnum" where
  "js_max NegInf x = Num x"
| "js_max (Num m) x = Num (max m x)"
| "js_max PosInf x = PosInf"
| "js_max NaN x = NaN"

definition math_max :: "rat list \<Rightarrow> jsnum" where
  "math_max scores = foldl js_max NegInf scores"

text \<open>\<open>a < t\<close> for a number \<open>a\<close> and a finite constant \<open>t\<close>.\<close>

fun js_less :: "jsnum \<Rightarrow> rat \<Rightarrow> bool" where
  "js_less (Num a) t = (a < t)"
| "js_less NegInf t = True"
| "js_less PosInf t = False"
| "js_less NaN t = False"

text \<open>
  \<open>x.toFixed(3)\<close>: the sign, then the integer \<open>n\<close> nearest to \<open>|x| * 1000\<close> (the larger
  one of two nearest), printed with three digits after the point. The rational is the
  exact value of the double.
\<close>

definition pad3 :: "nat \<Rightarrow> string" where
  "pad3 n = (if n < 10 then ''00'' else if n < 100 then ''0'' else '''') @ show_nat n"

definition fixed3 :: "rat \<Rightarrow> string" where
  "fixed3 x =
     (let n = nat \<lfloor>\<bar>x\<bar> * 1000 + 1 / 2\<rfloor>
      in (if x < 0 then ''-'' else '''') @ show_nat (n div 1000) @ ''.'' @ pad3 (n mod 1000))"

fun toFixed3 :: "jsnum \<Rightarrow> string" where
  "toFixed3 (Num x) = fixed3 x"
| "toFixed3 NaN = ''NaN''"
| "toFixed3 PosInf = ''Infinity''"
| "toFixed3 NegInf = ''-Infinity''"

record validation =
  isValid :: bool
  reason :: string
  details :: string

definition MIN_SIMILARITY_THRESHOLD :: rat where
  "MIN_SIMILARITY_THRESHOLD = 1 / 10"

definition MIN_UNIQUE_DOCUMENTS :: nat where
  "MIN_UNIQUE_DOCUMENTS = 1"

text \<open>\<open>result.source?.source_file || result.source?.document_id\<close>.\<close>

definition document_of :: "formatted_result \<Rightarrow> string option" where
  "document_of result =
     js_or (md_field md_source_file (fr_source result)) (md_field md_document_id (fr_source result))"

definition validateRetrievalQuality ::
  "raw_result list \<Rightarrow> formatted_result list \<Rightarrow> validation" where
  "validateRetrievalQuality rawResults formattedResults =
     (if length rawResults = 0
      then \<lparr>isValid = False, reason = ''No relevant documents found'',
             details = ''Retrieved 0 results from vector store''\<rparr>
      else
        let scores = map fr_score formattedResults;
            maxScore = math_max scores
        in if js_less maxScore MIN_SIMILARITY_THRESHOLD
           then \<lparr>isValid = False,
                  reason = ''Maximum similarity score ('' @ toFixed3 maxScore
                    @ '') below minimum threshold (0.1)'',
                  details = ''Best match score: '' @ toFixed3 maxScore @ '', threshold: 0.1''\<rparr>
           else
             let uniqueDocuments = new_Set (map document_of formattedResults)
             in if length uniqueDocuments < MIN_UNIQUE_DOCUMENTS
                then \<lparr>isValid = False,
                       reason = ''Number of unique documents (''
                         @ show_nat (length uniqueDocuments)
                         @ '') below minimum requirement (1)'',
                       details = ''Found '' @ show_nat (length uniqueDocuments)
                         @ '' unique documents, required at least 1''\<rparr>
                else \<lparr>isValid = True, reason = ''All quality checks passed'',
                       details = ''Max similarity: '' @ toFixed3 maxScore
                         @ '', Unique docs: '' @ show_nat (length uniqueDocuments)\<rparr>)"

text \<open>
  A reason mentions a phrase, as the specification words it, when the phrase occurs in
  it, whatever the case of the letters.
\<close>

definition mentions :: "string \<Rightarrow> string \<Rightarrow> bool" where
  "mentions text phrase = js_includes (toLowerCase text) (toLowerCase phrase)"

section \<open>The cache service (ResultCache)\<close>

text \<open>
  The private methods \<open>_clearExpired\<close>, \<open>_setCacheWithExpiration\<close>, \<open>_getCache\<close> and
  \<open>_deleteCache\<close> of the source are \<open>clearExpired\<close>, \<open>setCacheWithExpiration\<close>,
  \<open>getCache\<close> and \<open>deleteCache\<close> here.
\<close>

text \<open>
  A cached value is any JavaScript value: a primitive, or an object, whose payload is
  left open. \<open>undefined\<close>, \<open>null\<close>, \<open>false\<close>, \<open>0\<close>, \<open>NaN\<close> and the empty string are
  falsy; every object is truthy.
\<close>

datatype 'o jsval =
  JUndefined | JNull | JBool bool | JNumber jsnum | JString string | JObject 'o

fun truthy :: "'o jsval \<Rightarrow> bool" where
  "truthy JUndefined = False"
| "truthy JNull = False"
| "truthy (JBool b) = b"
| "truthy (JNumber n) = (n \<noteq> NaN \<and> n \<noteq> Num 0)"
| "truthy (JString s) = (s \<noteq> [])"
| "truthy (JObject obj) = True"

text \<open>
  The two module-level maps, and the timers of the platform that are pending. Time is
  counted in milliseconds. A pending timer of this module is its handle, the key its
  callback closes over, and the time at which it is due; the callback deletes the key
  from both maps. The code of a request runs to completion before a timer fires.
\<close>

record timer =
  timer_id :: nat
  timer_key :: string
  due :: nat

record 'o cache_state =
  memoryCache :: "string \<rightharpoonup> 'o jsval"
  cacheTimeouts :: "string \<rightharpoonup> nat"
  timers :: "timer list"
  now :: nat
  next_timer :: nat

definition empty_cache :: "'o cache_state" where
  "empty_cache =
     \<lparr>memoryCache = Map.empty, cacheTimeouts = Map.empty, timers = [], now = 0,
      next_timer = 1\<rparr>"

text \<open>
  \<open>setTimeout(callback, delay)\<close> of Node.js: a delay below 1 or above \<open>2^31 - 1\<close>
  milliseconds is replaced by 1. The new timer gets a fresh handle, which is returned.
\<close>

definition TIMEOUT_MAX :: nat where
  "TIMEOUT_MAX = 2147483647"

definition timer_delay :: "nat \<Rightarrow> nat" where
  "timer_delay ms = (if 1 \<le> ms \<and> ms \<le> TIMEOUT_MAX then ms else 1)"

definition setTimeout :: "string \<Rightarrow> nat \<Rightarrow> 'o cache_state \<Rightarrow> nat \<times> 'o cache_state" where
  "setTimeout key ms s =
     (next_timer s,
      s\<lparr>timers := timers s @ [\<lparr>timer_id = next_timer s, timer_key = key,
                                due = now s + timer_delay ms\<rparr>],
        next_timer := next_timer s + 1\<rparr>)"

definition clearTimeout :: "nat \<Rightarrow> 'o cache_state \<Rightarrow> 'o cache_state" where
  "clearTimeout timeoutId s = s\<lparr>timers := filter (\<lambda>t. timer_id t \<noteq> timeoutId) (timers s)\<rparr>"

definition clearExpired :: "string \<Rightarrow> 'o cache_state \<Rightarrow> 'o cache_state" where
  "clearExpired key s =
     (case cacheTimeouts s key of
        None \<Rightarrow> s
      | Some timeoutId \<Rightarrow>
          (clearTimeout timeoutId s)\<lparr>cacheTimeouts := (cacheTimeouts s)(key := None)\<rparr>)"

definition setCacheWithExpiration ::
  "string \<Rightarrow> 'o jsval \<Rightarrow> nat \<Rightarrow> 'o cache_state \<Rightarrow> 'o cache_state" where
  "setCacheWithExpiration key val ttl s =
     (let s1 = clearExpired key s;
          s2 = s1\<lparr>memoryCache := (memoryCache s1)(key \<mapsto> val)\<rparr>;
          (timeoutId, s3) = setTimeout key (ttl * 1000) s2
      in s3\<lparr>cacheTimeouts := (cacheTimeouts s3)(key \<mapsto> timeoutId)\<rparr>)"

text \<open>\<open>memoryCache.get(key) || null\<close>: a missing key reads as \<open>undefined\<close>.\<close>

definition getCache :: "string \<Rightarrow> 'o cache_state \<Rightarrow> 'o jsval" where
  "getCache key s =
     (case memoryCache s key of
        None \<Rightarrow> JNull
      | Some v \<Rightarrow> if truthy v then v else JNull)"

definition deleteCache :: "string \<Rightarrow> 'o cache_state \<Rightarrow> bool \<times> 'o cache_state" where
  "deleteCache key s =
     (let s1 = clearExpired key s
      in (memoryCache s1 key \<noteq> None, s1\<lparr>memoryCache := (memoryCache s1)(key := None)\<rparr>))"

text \<open>\<open>cacheResult(key, value, ttl)\<close>: the lifetime is \<open>ttl || 600\<close>.\<close>

definition cacheResult ::
  "string \<Rightarrow> 'o jsval \<Rightarrow> nat \<Rightarrow> 'o cache_state \<Rightarrow> bool \<times> 'o cache_state" where
  "cacheResult key val ttl s =
     (True, setCacheWithExpiration key val (if ttl = 0 then 600 else ttl) s)"

definition getCachedResult :: "string \<Rightarrow> 'o cache_state \<Rightarrow> 'o jsval" where
  "getCachedResult key s =
     (let cachedValue = getCache key s in if truthy cachedValue then cachedValue else JNull)"

text \<open>
  The callback of a timer, and the passing of \<open>ms\<close> milliseconds: the timers that are
  due by then fire in the order of their due times, and a timer that has fired is no
  longer pending.
\<close>

definition fire :: "'o cache_state \<Rightarrow> timer \<Rightarrow> 'o cache_state" where
  "fire s t =
     s\<lparr>memoryCache := (memoryCache s)(timer_key t := None),
       cacheTimeouts := (cacheTimeouts s)(timer_key t := None),
       timers := filter (\<lambda>u. timer_id u \<noteq> timer_id t) (timers s)\<rparr>"

definition advance :: "nat \<Rightarrow> 'o cache_state \<Rightarrow> 'o cache_state" where
  "advance ms s =
     foldl fire (s\<lparr>now := now s + ms\<rparr>)
       (sort_key due (filter (\<lambda>t. due t \<le> now s + ms) (timers s)))"

text \<open>The operations on the cache, and a history of operations run from a state.\<close>

datatype 'o cache_op =
  OpSet string "'o jsval" nat | OpGet string | OpDelete string | OpAdvance nat

fun exec :: "'o cache_state \<Rightarrow> 'o cache_op \<Rightarrow> 'o cache_state" where
  "exec s (OpSet key val ttl) = setCacheWithExpiration key val ttl s"
| "exec s (OpGet key) = s"
| "exec s (OpDelete key) = snd (deleteCache key s)"
| "exec s (OpAdvance ms) = advance ms s"

definition run :: "'o cache_op list \<Rightarrow> 'o cache_state \<Rightarrow> 'o cache_state" where
  "run ops s = foldl exec s ops"

text \<open>An operation writes key \<open>k\<close> when it sets or deletes it.\<close>

fun writes :: "string \<Rightarrow> 'o cache_op \<Rightarrow> bool" where
  "writes k (OpSet key val ttl) = (key = k)"
| "writes k (OpDelete key) = (key = k)"
| "writes k _ = False"

text \<open>The pending expiration timers of a key.\<close>

definition timers_of :: "string \<Rightarrow> 'o cache_state \<Rightarrow> timer list" where
  "timers_of k s = filter (\<lambda>t. timer_key t = k) (timers s)"

text \<open>
  The handles of the pending timers are distinct, every pending timer is the one
  that \<open>cacheTimeouts\<close> records for its key, and every handle that \<open>cacheTimeouts\<close>
  records is the one of a pending timer of that key.
\<close>

definition cache_inv :: "'o cache_state \<Rightarrow> bool" where
  "cache_inv s =
     (distinct (map timer_id (timers s)) \<and>
      (\<forall>t \<in> set (timers s).
         cacheTimeouts s (timer_key t) = Some (timer_id t) \<and> timer_id t < next_timer s) \<and>
      (\<forall>k timeoutId. cacheTimeouts s k = Some timeoutId \<longrightarrow>
         (\<exists>t \<in> set (timers s). timer_id t = timeoutId \<and> timer_key t = k)))"

section \<open>The controller (Orchestrator): cache lifetime\<close>

definition getCacheTTL :: "string \<Rightarrow> nat" where
  "getCacheTTL query =
     (let wordCount = length (split_ws query) in if wordCount > 10 then 300 else 600)"

section \<open>The controller (Orchestrator): the two query paths\<close>

text \<open>
  What the retrieval backend returns for a search and for a query with a generated
  answer, and the responses the controller builds from it.
\<close>

record search_data =
  sd_query :: string
  sd_results :: "raw_result list"
  sd_query_embedding :: "rat list"

record llm_data =
  ld_query :: string
  ld_answer :: string
  ld_sources :: "raw_result list"
  ld_query_embedding :: "rat list"

record search_response =
  sr_query :: string
  sr_results :: "formatted_result list"
  sr_total_results :: nat
  sr_retrieval_gated :: bool
  sr_gating_reason :: "string option"
  sr_similarity_score_range :: string
  sr_query_embedding :: "rat list"
  sr_retrieval_quality :: validation
  sr_processing_time :: nat

record llm_response =
  lr_query :: string
  lr_answer :: string
  lr_sources :: "formatted_result list"
  lr_total_sources :: nat
  lr_retrieval_gated :: bool
  lr_gating_reason :: "string option"
  lr_similarity_score_range :: string
  lr_query_embedding :: "rat list"
  lr_retrieval_quality :: validation
  lr_processing_time :: nat

text \<open>The objects that the controller stores in the cache.\<close>

datatype payload = SearchResponse search_response | LlmResponse llm_response

text \<open>
  What the handler sends: \<open>res.json(value)\<close>, or a status 400 or 500 with an error
  and, for 500, the message of the exception.
\<close>

datatype http_response =
  Json200 "payload jsval" | Status400 string | Status500 string string

record request =
  rq_query :: "payload jsval"
  rq_user_id :: "string option"
  rq_top_k :: "nat option"

text \<open>
  The check of the input: the query must be a string that is not empty after
  trimming. The result is the query as it is used from then on, untrimmed.
\<close>

definition valid_query :: "payload jsval \<Rightarrow> string option" where
  "valid_query query =
     (case query of
        JString q \<Rightarrow> if q = [] \<or> length (trim q) = 0 then None else Some q
      | _ \<Rightarrow> None)"

definition top_k_of :: "request \<Rightarrow> nat" where
  "top_k_of req = (case rq_top_k req of None \<Rightarrow> 5 | Some n \<Rightarrow> n)"

text \<open>
  The separator of \<open>_calculateSimilarityRange\<close>, as the bytes that the three
  characters between the two numbers have in the source file.
\<close>

definition range_separator :: string where
  "range_separator =
     [CHR 0x20, CHR 0xC3, CHR 0xA2, CHR 0xE2, CHR 0x82, CHR 0xAC, CHR 0xE2, CHR 0x80, CHR 0x9C,
      CHR 0x20]"

definition calculateSimilarityRange :: "formatted_result list \<Rightarrow> string" where
  "calculateSimilarityRange results =
     (if length results = 0 then ''N/A''
      else
        let scores = map fr_score results;
            minScore = Min (set scores);
            maxScore = Max (set scores)
        in fixed3 minScore @ range_separator @ fixed3 maxScore)"

text \<open>
  A write of the cache, as the handler performs it: key, value and lifetime. The
  handlers return, with the response and the state of the cache, the writes they made.
\<close>

type_synonym cache_write = "string \<times> payload jsval \<times> nat"

definition no_length_message :: string where
  "no_length_message = ''Cannot read properties of undefined (reading 'length')''"

text \<open>
  \<open>searchDocuments\<close>. The retrieval backend is awaited for \<open>wait\<close> milliseconds, in
  which the timers of the cache that become due fire; it fails with a message or
  returns its data. \<open>elapsed\<close> is the time measured by the two calls of \<open>Date.now\<close>.
  The recording of the query in the history, whose failure is caught and logged, does
  not touch the cache or the response.
\<close>

definition searchDocuments ::
  "request \<Rightarrow> string + search_data \<Rightarrow> nat \<Rightarrow> nat \<Rightarrow> payload cache_state
     \<Rightarrow> http_response \<times> payload cache_state \<times> cache_write list" where
  "searchDocuments req backend wait elapsed s =
     (case valid_query (rq_query req) of
        None \<Rightarrow> (Status400 ''Query is required and must be a non-empty string'', s, [])
      | Some query \<Rightarrow>
          let cacheKey = ''search:'' @ query @ '':'' @ show_nat (top_k_of req);
              cachedResult = getCachedResult cacheKey s
          in if truthy cachedResult
             then (case cachedResult of
                     JObject (SearchResponse r) \<Rightarrow> (Json200 cachedResult, s, [])
                   | _ \<Rightarrow> (Status500 ''Search failed'' no_length_message, s, []))
             else
               let s1 = advance wait s
               in case backend of
                    Inl message \<Rightarrow> (Status500 ''Search failed'' message, s1, [])
                  | Inr rawResults \<Rightarrow>
                      let formattedResults = map format_result (sd_results rawResults);
                          validation =
                            validateRetrievalQuality (sd_results rawResults) formattedResults;
                          response =
                            \<lparr>sr_query = sd_query rawResults,
                             sr_results = formattedResults,
                             sr_total_results = length formattedResults,
                             sr_retrieval_gated = (\<not> isValid validation),
                             sr_gating_reason =
                               (if isValid validation then None else Some (reason validation)),
                             sr_similarity_score_range =
                               calculateSimilarityRange formattedResults,
                             sr_query_embedding = sd_query_embedding rawResults,
                             sr_retrieval_quality = validation,
                             sr_processing_time = elapsed\<rparr>
                      in if isValid validation
                         then
                           let ttl = getCacheTTL query
                           in (Json200 (JObject (SearchResponse response)),
                               snd (cacheResult cacheKey (JObject (SearchResponse response)) ttl s1),
                               [(cacheKey, JObject (SearchResponse response), ttl)])
                         else (Json200 (JObject (SearchResponse response)), s1, []))"

definition gated_answer :: string where
  "gated_answer =
     ''Unable to generate answer due to low-quality retrieval results. The retrieved documents do not meet the minimum quality thresholds.''"

text \<open>\<open>queryDocumentsWithLLM\<close>, with the same parameters.\<close>

definition queryDocumentsWithLLM ::
  "request \<Rightarrow> string + llm_data \<Rightarrow> nat \<Rightarrow> nat \<Rightarrow> payload cache_state
     \<Rightarrow> http_response \<times> payload cache_state \<times> cache_write list" where
  "queryDocumentsWithLLM req backend wait elapsed s =
     (case valid_query (rq_query req) of
        None \<Rightarrow> (Status400 ''Query is required and must be a non-empty string'', s, [])
      | Some query \<Rightarrow>
          let cacheKey = ''llm:'' @ query @ '':'' @ show_nat (top_k_of req);
              cachedResult = getCachedResult cacheKey s
          in if truthy cachedResult
             then (case cachedResult of
                     JObject (LlmResponse r) \<Rightarrow> (Json200 cachedResult, s, [])
                   | _ \<Rightarrow> (Status500 ''LLM query failed'' no_length_message, s, []))
             else
               let s1 = advance wait s
               in case backend of
                    Inl message \<Rightarrow> (Status500 ''LLM query failed'' message, s1, [])
                  | Inr rawResults \<Rightarrow>
                      let formattedResults = map format_result (ld_sources rawResults);
                          validation =
                            validateRetrievalQuality (ld_sources rawResults) formattedResults;
                          response =
                            \<lparr>lr_query = ld_query rawResults,
                             lr_answer =
                               (if isValid validation then ld_answer rawResults
                                else gated_answer),
                             lr_sources = (if isValid validation then formattedResults else []),
                             lr_total_sources =
                               (if isValid validation then length formattedResults else 0),
                             lr_retrieval_gated = (\<not> isValid validation),
                             lr_gating_reason =
                               (if isValid validation then None else Some (reason validation)),
                             lr_similarity_score_range =
                               (if isValid validation
                                then calculateSimilarityRange formattedResults else ''N/A''),
                             lr_query_embedding = ld_query_embedding rawResults,
                             lr_retrieval_quality = validation,
                             lr_processing_time = elapsed\<rparr>
                      in if isValid validation
                         then
                           let ttl = getCacheTTL query
                           in (Json200 (JObject (LlmResponse response)),
                               snd (cacheResult cacheKey (JObject (LlmResponse response)) ttl s1),
                               [(cacheKey, JObject (LlmResponse response), ttl)])
                         else (Json200 (JObject (LlmResponse response)), s1, []))"

section \<open>Properties of the string functions\<close>

lemma words_from_filter:
  "(in_run \<longrightarrow> cur = []) \<Longrightarrow> filter (\<lambda>w. w \<noteq> []) (split_runs_from is_space in_run cur s) = words_from cur s"
  by (induction s arbitrary: in_run cur) auto

lemma split_no_empty:
  "(s = [] \<longrightarrow> cur \<noteq> []) \<Longrightarrow> (s \<noteq> [] \<longrightarrow> \<not> is_space (last s)) \<Longrightarrow>
   (cur = [] \<and> \<not> in_run \<longrightarrow> s \<noteq> [] \<and> \<not> is_space (hd s)) \<Longrightarrow>
   [] \<notin> set (split_runs_from is_space in_run cur s)"
proof (induction s arbitrary: in_run cur)
  case Nil
  then show ?case by simp
next
  case (Cons c cs)
  show ?case
  proof (cases "is_space c")
    case True
    then have "cs \<noteq> []" using Cons.prems(2) by auto
    then have l: "\<not> is_space (last cs)" using Cons.prems(2) by auto
    show ?thesis
    proof (cases in_run)
      case True
      have "[] \<notin> set (split_runs_from is_space True cur cs)"
        by (rule Cons.IH) (use \<open>cs \<noteq> []\<close> l in auto)
      with True \<open>is_space c\<close> show ?thesis by simp
    next
      case False
      then have "cur \<noteq> []" using Cons.prems(3) \<open>is_space c\<close> by auto
      moreover have "[] \<notin> set (split_runs_from is_space True [] cs)"
        by (rule Cons.IH) (use \<open>cs \<noteq> []\<close> l in auto)
      ultimately show ?thesis using False \<open>is_space c\<close> by simp
    qed
  next
    case False
    have "[] \<notin> set (split_runs_from is_space False (cur @ [c]) cs)"
      by (rule Cons.IH) (use Cons.prems(2) in auto)
    with False show ?thesis by simp
  qed
qed

lemma foldl_set_add:
  "foldl set_add acc xs = acc @ first_seen (filter (\<lambda>x. x \<notin> set acc) xs)"
proof (induction xs arbitrary: acc)
  case Nil
  then show ?case by simp
next
  case (Cons x xs)
  show ?case
  proof (cases "x \<in> set acc")
    case True
    then show ?thesis using Cons.IH [of acc] by (simp add: set_add_def)
  next
    case False
    have "filter (\<lambda>y. y \<notin> set (acc @ [x])) xs = filter (\<lambda>y. y \<noteq> x) (filter (\<lambda>y. y \<notin> set acc) xs)"
      by (induction xs) auto
    then show ?thesis using False Cons.IH [of "acc @ [x]"] by (simp add: set_add_def)
  qed
qed

lemma new_Set_first_seen: "new_Set xs = first_seen xs"
  using foldl_set_add [of "[]" xs] by (simp add: new_Set_def)

lemma set_first_seen: "set (first_seen xs) = set xs"
  by (induction xs rule: first_seen.induct) auto

lemma distinct_first_seen: "distinct (first_seen xs)"
  by (induction xs rule: first_seen.induct) (auto simp: set_first_seen)

lemma is_space_to_lower: "is_space (to_lower c) = is_space c"
  by (auto simp: is_space_def to_lower_def upper_chars_def lower_chars_def split: option.splits if_splits)


lemma trim_ends:
  assumes "trim q \<noteq> []"
  shows "\<not> is_space (hd (trim q))" and "\<not> is_space (last (trim q))"
proof -
  let ?d = "dropWhile is_space q"
  let ?e = "dropWhile is_space (rev ?d)"
  from assms have e: "?e \<noteq> []" by (simp add: trim_def)
  have d: "?d \<noteq> []"
  proof
    assume a: "?d = []"
    show False using e unfolding a by simp
  qed
  have "last (trim q) = hd ?e" using e by (simp add: trim_def last_rev)
  then show "\<not> is_space (last (trim q))" using e hd_dropWhile by metis
  have "hd (trim q) = last ?e" using e by (simp add: trim_def hd_rev)
  also have "\<dots> = last (rev ?d)" using e
    by (metis append_Nil2 last_appendR takeWhile_dropWhile_id)
  also have "\<dots> = hd ?d" using d by (simp add: last_rev)
  finally show "\<not> is_space (hd (trim q))" using d hd_dropWhile by metis
qed

lemma split_ws_trimmed:
  assumes "s \<noteq> []" "\<not> is_space (hd s)" "\<not> is_space (last s)"
  shows "split_ws s = ws_words s"
proof -
  have "[] \<notin> set (split_ws s)"
    unfolding split_ws_def by (rule split_no_empty) (use assms in auto)
  then have "filter (\<lambda>w. w \<noteq> []) (split_ws s) = split_ws s"
    by (induction "split_ws s") (auto simp: filter_id_conv)
  then show ?thesis
    using words_from_filter [of False "[]" s] by (simp add: split_ws_def ws_words_def)
qed

lemma split_ws_lower_trim:
  assumes "trim q \<noteq> []"
  shows "split_ws (toLowerCase (trim q)) = ws_words (toLowerCase (trim q))"
proof (rule split_ws_trimmed)
  show "toLowerCase (trim q) \<noteq> []" using assms by (simp add: toLowerCase_def)
  show "\<not> is_space (hd (toLowerCase (trim q)))"
    using assms trim_ends(1) [OF assms] by (simp add: toLowerCase_def hd_map is_space_to_lower)
  show "\<not> is_space (last (toLowerCase (trim q)))"
    using assms trim_ends(2) [OF assms] by (simp add: toLowerCase_def last_map is_space_to_lower)
qed

section \<open>Properties of the query processor\<close>

lemma join_char:
  "join [c] xs = (case xs of [] \<Rightarrow> [] | x # ys \<Rightarrow> x @ concat (map (\<lambda>y. c # y) ys))"
  by (induction "[c]" xs rule: join.induct) simp_all

text \<open>
  Claim C8. For every query, \<open>terms\<close> is the union, in first-seen order and without
  duplicates, of the tokens of the trimmed and lower-cased query that are not stop
  words with the \<open>expansions\<close> sequence, and \<open>expanded\<close> is \<open>terms\<close> joined with single
  spaces: the empty string when there is no term, and otherwise the first term followed
  by every later term with one space in front of it. The tokens are the pieces of
  \<open>split(/\s+/)\<close>; for a query that is not blank they are exactly its
  white-space-delimited words, and for a blank query they are the single empty string.
\<close>

theorem rewriteQuery_terms_union:
  "terms (rewriteQuery q) =
     first_seen (filter (\<lambda>w. w \<notin> set stopWords) (split_ws (toLowerCase (trim q)))
                 @ expansions (rewriteQuery q))
   \<and> distinct (terms (rewriteQuery q))
   \<and> set (terms (rewriteQuery q)) =
       {w \<in> set (split_ws (toLowerCase (trim q))). w \<notin> set stopWords}
       \<union> set (expansions (rewriteQuery q))
   \<and> expanded (rewriteQuery q) = join '' '' (terms (rewriteQuery q))
   \<and> expanded (rewriteQuery q) =
       (case terms (rewriteQuery q) of
          [] \<Rightarrow> []
        | t # ts \<Rightarrow> t @ concat (map (\<lambda>u. CHR '' '' # u) ts))
   \<and> (trim q \<noteq> [] \<longrightarrow>
        split_ws (toLowerCase (trim q)) = ws_words (toLowerCase (trim q)))"
proof -
  have t: "terms (rewriteQuery q) =
     first_seen (filter (\<lambda>w. w \<notin> set stopWords) (split_ws (toLowerCase (trim q)))
                 @ expansions (rewriteQuery q))"
    by (simp add: rewriteQuery_def Let_def new_Set_first_seen query_words_def)
  have d: "distinct (terms (rewriteQuery q))"
    unfolding t by (rule distinct_first_seen)
  have s: "set (terms (rewriteQuery q)) =
       {w \<in> set (split_ws (toLowerCase (trim q))). w \<notin> set stopWords}
       \<union> set (expansions (rewriteQuery q))"
    unfolding t set_first_seen by auto
  have e: "expanded (rewriteQuery q) = join '' '' (terms (rewriteQuery q))"
    by (simp add: rewriteQuery_def Let_def)
  have c: "expanded (rewriteQuery q) =
       (case terms (rewriteQuery q) of
          [] \<Rightarrow> []
        | t # ts \<Rightarrow> t @ concat (map (\<lambda>u. CHR '' '' # u) ts))"
    unfolding e by (rule join_char)
  from t d s e c split_ws_lower_trim show ?thesis by blast
qed

theorem rewriteQuery_terms_union_witness:
  "trim ''how do I fix an error in the config'' \<noteq> []
   \<and> split_ws (toLowerCase (trim ''how do I fix an error in the config'')) =
       ws_words (toLowerCase (trim ''how do I fix an error in the config''))
   \<and> terms (rewriteQuery ''how do I fix an error in the config'') =
       [''how'', ''do'', ''i'', ''fix'', ''error'', ''config'', ''issue'', ''problem'',
        ''troubleshoot'', ''configuration'', ''settings'', ''preferences'', ''options'']
   \<and> distinct (terms (rewriteQuery ''how do I fix an error in the config''))
   \<and> expanded (rewriteQuery ''how do I fix an error in the config'') =
       ''how do i fix error config issue problem troubleshoot configuration settings preferences options''"
proof -
  have n: "trim ''how do I fix an error in the config'' \<noteq> []"
    by code_simp
  have v: "terms (rewriteQuery ''how do I fix an error in the config'') =
       [''how'', ''do'', ''i'', ''fix'', ''error'', ''config'', ''issue'', ''problem'',
        ''troubleshoot'', ''configuration'', ''settings'', ''preferences'', ''options'']"
    by code_simp
  note u = rewriteQuery_terms_union [of "''how do I fix an error in the config''"]
  from u have "expanded (rewriteQuery ''how do I fix an error in the config'') =
       (case terms (rewriteQuery ''how do I fix an error in the config'') of
          [] \<Rightarrow> []
        | t # ts \<Rightarrow> t @ concat (map (\<lambda>u. CHR '' '' # u) ts))"
    by (rule conjunct1 [OF conjunct2 [OF conjunct2 [OF conjunct2 [OF conjunct2]]]])
  then have x: "expanded (rewriteQuery ''how do I fix an error in the config'') =
       ''how do i fix error config issue problem troubleshoot configuration settings preferences options''"
    unfolding v by simp
  from u have d: "distinct (terms (rewriteQuery ''how do I fix an error in the config''))"
    by (rule conjunct1 [OF conjunct2])
  from u n have w: "split_ws (toLowerCase (trim ''how do I fix an error in the config'')) =
       ws_words (toLowerCase (trim ''how do I fix an error in the config''))"
    by (simp only: simp_thms)
  from n w v d x show ?thesis by (intro conjI)
qed

lemma expand_terms_none:
  assumes "\<forall>t \<in> set (map fst queryExpansions). \<not> js_includes s t"
  shows "expand_terms s = []"
proof -
  have "filter (\<lambda>(term, related). js_includes s term) queryExpansions = []"
    using assms by (auto simp: filter_empty_conv)
  then show ?thesis by (simp add: expand_terms_def)
qed

text \<open>
  Claim C10. For a query whose every token is a stop word and in which no trigger word
  of the expansion table occurs, the rewriter produces no terms, and the complexity
  analysis divides the zero sum of lengths by the zero term count: \<open>averageLength\<close> is
  \<open>NaN\<close>, \<open>termCount\<close> is 0, \<open>hasTechnicalTerms\<close> and \<open>isComplex\<close> are false. The query
  \<open>the\<close> is one such query.
\<close>

theorem complexity_of_stop_word_query:
  assumes "\<forall>w \<in> set (split_ws (toLowerCase (trim q))). w \<in> set stopWords"
    and "\<forall>t \<in> set (map fst queryExpansions). \<not> js_includes (toLowerCase (trim q)) t"
  shows "terms (rewriteQuery q) = []
    \<and> queryComplexity (prepareSearchQuery q k) =
        \<lparr>termCount = 0, averageLength = NaN, hasTechnicalTerms = False, isComplex = False\<rparr>"
proof -
  have w: "query_words (toLowerCase (trim q)) = []"
    using assms(1) by (auto simp: query_words_def filter_empty_conv)
  have e: "expand_terms (toLowerCase (trim q)) = []"
    by (rule expand_terms_none [OF assms(2)])
  have t: "terms (rewriteQuery q) = []"
    by (simp add: rewriteQuery_def Let_def w e new_Set_def)
  then show ?thesis
    by (simp add: prepareSearchQuery_def Let_def analyzeQueryComplexity_def js_div_def)
qed

theorem complexity_of_stop_word_query_witness:
  "split_ws (toLowerCase (trim ''the'')) = [''the'']
   \<and> list_all (\<lambda>w. w \<in> set stopWords) (split_ws (toLowerCase (trim ''the'')))
   \<and> list_all (\<lambda>t. \<not> js_includes (toLowerCase (trim ''the'')) t) (map fst queryExpansions)
   \<and> terms (rewriteQuery ''the'') = []
   \<and> termCount (queryComplexity (prepareSearchQuery ''the'' 5)) = 0
   \<and> averageLength (queryComplexity (prepareSearchQuery ''the'' 5)) = NaN
   \<and> \<not> hasTechnicalTerms (queryComplexity (prepareSearchQuery ''the'' 5))
   \<and> \<not> isComplex (queryComplexity (prepareSearchQuery ''the'' 5))"
proof -
  have s: "split_ws (toLowerCase (trim ''the'')) = [''the'']"
    by code_simp
  have a: "\<forall>w \<in> set (split_ws (toLowerCase (trim ''the''))). w \<in> set stopWords"
    by code_simp
  have b: "\<forall>t \<in> set (map fst queryExpansions). \<not> js_includes (toLowerCase (trim ''the'')) t"
    by code_simp
  from s a b complexity_of_stop_word_query [OF a b, of 5] show ?thesis
    by (simp add: list_all_iff)
qed

section \<open>Properties of the cache lifetime\<close>

text \<open>
  For a query without white space at either end, the pieces of \<open>split(/\s+/)\<close> are
  the words of the query, and the lifetime follows the number of words.
\<close>

lemma getCacheTTL_trimmed:
  assumes "q \<noteq> []" "\<not> is_space (hd q)" "\<not> is_space (last q)"
  shows "getCacheTTL q = (if length (ws_words q) > 10 then 300 else 600)"
  by (simp add: getCacheTTL_def Let_def split_ws_trimmed [OF assms])

text \<open>
  Claim C7. The lifetime is 300 seconds for a query of more than 10 words and 600
  seconds otherwise. The controller hands the query over untrimmed, and a run of white
  space at its start or end adds an empty piece to the count: the ten-word query below
  starts with a space, is counted as eleven pieces and gets 300 seconds.
\<close>

theorem getCacheTTL_leading_space:
  "ws_words '' one two three four five six seven eight nine ten'' =
     [''one'', ''two'', ''three'', ''four'', ''five'', ''six'', ''seven'', ''eight'', ''nine'',
      ''ten'']
   \<and> getCacheTTL '' one two three four five six seven eight nine ten'' = 300"
  by code_simp

section \<open>Properties of the deduplication\<close>

lemma length_new_Set: "length (new_Set xs) = card (set xs)"
  by (simp add: new_Set_first_seen distinct_card [OF distinct_first_seen, symmetric] set_first_seen)

lemma set_new_Set: "set (new_Set xs) = set xs"
  by (simp add: new_Set_first_seen set_first_seen)

text \<open>
  The similarity the code computes from the two insertion-ordered word sets is the
  Jaccard similarity of the word sets.
\<close>

lemma calculateContentSimilarity_jaccard:
  "calculateContentSimilarity c1 c2 = jaccard (word_set c1) (word_set c2)"
proof -
  let ?w1 = "new_Set (match_words (toLowerCase c1))"
  let ?w2 = "new_Set (match_words (toLowerCase c2))"
  have i: "length (new_Set (filter (\<lambda>x. x \<in> set ?w2) ?w1)) = card (word_set c1 \<inter> word_set c2)"
    by (simp add: length_new_Set set_new_Set word_set_def Int_def conj_commute)
  have u: "length (new_Set (?w1 @ ?w2)) = card (word_set c1 \<union> word_set c2)"
    by (simp add: length_new_Set set_new_Set word_set_def)
  have e: "card (word_set c1 \<union> word_set c2) > 0 \<longleftrightarrow> word_set c1 \<union> word_set c2 \<noteq> {}"
    by (simp add: word_set_def card_gt_0_iff)
  show ?thesis
    unfolding calculateContentSimilarity_def Let_def i u jaccard_def using e by auto
qed

lemma isDuplicate_iff:
  "isDuplicate kept r \<longleftrightarrow>
     (\<exists>e \<in> set kept. jaccard (word_set (content r)) (word_set (content e)) > 9 / 10)"
  by (simp add: isDuplicate_def list_ex_iff calculateContentSimilarity_jaccard)

lemma deduplicateResults_foldl: "deduplicateResults rs = foldl dedup_step [] rs"
proof (cases rs)
  case Nil
  then show ?thesis by (simp add: deduplicateResults_def)
next
  case (Cons r rs')
  then show ?thesis
    by (cases rs') (simp_all add: deduplicateResults_def dedup_step_def isDuplicate_def)
qed

lemma deduplicateResults_snoc:
  "deduplicateResults (rs @ [r]) =
     (if isDuplicate (deduplicateResults rs) r then deduplicateResults rs
      else deduplicateResults rs @ [r])"
  by (simp add: deduplicateResults_foldl dedup_step_def)

lemma jaccard_self: "A \<noteq> {} \<Longrightarrow> finite A \<Longrightarrow> jaccard A A = 1"
  by (simp add: jaccard_def)

text \<open>
  Claim C3. Walking the score-sorted sequence, deduplication keeps a result if and only
  if no result kept before it has a Jaccard similarity of lower-case word sets with it
  that is strictly greater than 0.9. Of two results with identical content that
  contains at least one word, exactly the first is kept; two results whose similarity
  is at most 0.9, such as two that share 50% of their words, are both kept.
\<close>

theorem deduplicateResults_keeps:
  "deduplicateResults (rs @ [r]) =
     (if \<exists>e \<in> set (deduplicateResults rs).
           jaccard (word_set (content r)) (word_set (content e)) > 9 / 10
      then deduplicateResults rs else deduplicateResults rs @ [r])
   \<and> (content r1 = content r2 \<and> word_set (content r1) \<noteq> {} \<longrightarrow>
        deduplicateResults [r1, r2] = [r1])
   \<and> (jaccard (word_set (content r2)) (word_set (content r1)) \<le> 9 / 10 \<longrightarrow>
        deduplicateResults [r1, r2] = [r1, r2])"
proof -
  have a: "deduplicateResults (rs @ [r]) =
     (if \<exists>e \<in> set (deduplicateResults rs).
           jaccard (word_set (content r)) (word_set (content e)) > 9 / 10
      then deduplicateResults rs else deduplicateResults rs @ [r])"
    unfolding deduplicateResults_snoc isDuplicate_iff ..
  have two: "deduplicateResults [r1, r2] =
     (if jaccard (word_set (content r2)) (word_set (content r1)) > 9 / 10 then [r1] else [r1, r2])"
    using deduplicateResults_snoc [of "[r1]" r2]
    by (simp add: isDuplicate_iff deduplicateResults_def)
  have b: "deduplicateResults [r1, r2] = [r1]"
    if "content r1 = content r2 \<and> word_set (content r1) \<noteq> {}"
  proof -
    from that have eq: "content r1 = content r2" by (rule conjunct1)
    from that have ne: "word_set (content r1) \<noteq> {}" by (rule conjunct2)
    have fin: "finite (word_set (content r1))" by (simp add: word_set_def)
    have "jaccard (word_set (content r1)) (word_set (content r1)) = 1"
      by (rule jaccard_self [OF ne fin])
    then have "jaccard (word_set (content r2)) (word_set (content r1)) = 1"
      by (simp add: eq)
    then show ?thesis by (simp add: two)
  qed
  have c: "deduplicateResults [r1, r2] = [r1, r2]"
    if "jaccard (word_set (content r2)) (word_set (content r1)) \<le> 9 / 10"
    using that by (simp add: two)
  from a b c show ?thesis by blast
qed

theorem deduplicateResults_keeps_witness:
  "content (raw ''c1'' ''The cat sat.'' (9 / 10) None None) =
     content (raw ''c2'' ''The cat sat.'' (8 / 10) None None)
   \<and> word_set ''The cat sat.'' = {''the'', ''cat'', ''sat''}
   \<and> deduplicateResults
        [raw ''c1'' ''The cat sat.'' (9 / 10) None None,
         raw ''c2'' ''The cat sat.'' (8 / 10) None None] =
       [raw ''c1'' ''The cat sat.'' (9 / 10) None None]
   \<and> jaccard (word_set ''b c d'') (word_set ''a b c'') = 1 / 2
   \<and> deduplicateResults
        [raw ''c1'' ''a b c'' (9 / 10) None None, raw ''c2'' ''b c d'' (8 / 10) None None] =
       [raw ''c1'' ''a b c'' (9 / 10) None None, raw ''c2'' ''b c d'' (8 / 10) None None]"
proof -
  have w: "word_set ''The cat sat.'' = {''the'', ''cat'', ''sat''}"
    by code_simp
  have j: "jaccard (word_set ''b c d'') (word_set ''a b c'') = 1 / 2"
    by code_simp
  have 1: "deduplicateResults
        [raw ''c1'' ''The cat sat.'' (9 / 10) None None,
         raw ''c2'' ''The cat sat.'' (8 / 10) None None] =
       [raw ''c1'' ''The cat sat.'' (9 / 10) None None]"
    using deduplicateResults_keeps
      [of "[]" "raw ''c1'' ''The cat sat.'' (9 / 10) None None"
          "raw ''c1'' ''The cat sat.'' (9 / 10) None None"
          "raw ''c2'' ''The cat sat.'' (8 / 10) None None"] w
    by (simp add: raw_def)
  have 2: "deduplicateResults
        [raw ''c1'' ''a b c'' (9 / 10) None None, raw ''c2'' ''b c d'' (8 / 10) None None] =
       [raw ''c1'' ''a b c'' (9 / 10) None None, raw ''c2'' ''b c d'' (8 / 10) None None]"
    using deduplicateResults_keeps
      [of "[]" "raw ''c1'' ''a b c'' (9 / 10) None None"
          "raw ''c1'' ''a b c'' (9 / 10) None None"
          "raw ''c2'' ''b c d'' (8 / 10) None None"] j
    by (simp add: raw_def)
  from w j 1 2 show ?thesis by (simp add: raw_def)
qed

text \<open>
  Two results with identical content are not always reduced to one: a content without
  any word character has the empty word set, its similarity with itself is 0 by the
  guard for the empty union, and both results are kept.
\<close>

theorem deduplicateResults_wordless_counterexample:
  "content (raw ''c1'' ''---'' (9 / 10) None None) = content (raw ''c2'' ''---'' (8 / 10) None None)
   \<and> calculateContentSimilarity ''---'' ''---'' = 0
   \<and> deduplicateResults
        [raw ''c1'' ''---'' (9 / 10) None None, raw ''c2'' ''---'' (8 / 10) None None] =
       [raw ''c1'' ''---'' (9 / 10) None None, raw ''c2'' ''---'' (8 / 10) None None]"
  by code_simp

section \<open>Properties of the grouping by document\<close>

lemma filter_key_snoc:
  "filter (\<lambda>x. doc_key x = k) (ps @ [r]) =
     filter (\<lambda>x. doc_key x = k) ps @ (if doc_key r = k then [r] else [])"
  by simp

lemma map_fst_upd:
  "map fst (map (\<lambda>(k, v). if k = d then (k, v @ [r]) else (k, v)) g) = map fst g"
  by (induction g) auto

lemma group_push_inv:
  assumes push: "group_push g r = Inr g'"
    and dist: "distinct (map fst g)"
    and grp: "\<And>k v. (k, v) \<in> set g \<Longrightarrow> v = filter (\<lambda>x. doc_key x = k) ps"
    and keys: "\<And>x. x \<in> set ps \<Longrightarrow> doc_key x \<in> fst ` set g"
  shows "distinct (map fst g')"
    and "\<And>k v. (k, v) \<in> set g' \<Longrightarrow> v = filter (\<lambda>x. doc_key x = k) (ps @ [r])"
    and "\<And>x. x \<in> set (ps @ [r]) \<Longrightarrow> doc_key x \<in> fst ` set g'"
proof -
  let ?d = "doc_key r"
  let ?upd = "\<lambda>(k, v). if k = ?d then (k, v @ [r]) else (k, v)"
  show "distinct (map fst g')"
  proof (cases "map_of g ?d")
    case None
    then have "?d \<notin> fst ` set g" by (simp add: map_of_eq_None_iff)
    moreover from None push have "g' = g @ [(?d, [r])]"
      by (simp add: group_push_def Let_def split: if_splits)
    ultimately show ?thesis using dist by simp
  next
    case (Some v)
    with push have g': "g' = map ?upd g" by (simp add: group_push_def Let_def)
    from dist show ?thesis unfolding g' by (simp only: map_fst_upd)
  qed
  show "v = filter (\<lambda>x. doc_key x = k) (ps @ [r])" if "(k, v) \<in> set g'" for k v
  proof (cases "map_of g ?d")
    case None
    then have nk: "?d \<notin> fst ` set g" by (simp add: map_of_eq_None_iff)
    from None push have g': "g' = g @ [(?d, [r])]"
      by (simp add: group_push_def Let_def split: if_splits)
    from that g' consider "(k, v) \<in> set g" | "k = ?d" "v = [r]" by auto
    then show ?thesis
    proof cases
      case 1
      then have "k \<noteq> ?d" using nk by force
      with grp [OF 1] show ?thesis by simp
    next
      case 2
      have "filter (\<lambda>x. doc_key x = ?d) ps = []"
        unfolding filter_empty_conv using keys nk by metis
      with 2 show ?thesis by simp
    qed
  next
    case (Some w)
    with push have g': "g' = map ?upd g" by (simp add: group_push_def Let_def)
    with that obtain k0 v0 where kv: "(k0, v0) \<in> set g" "(k, v) = ?upd (k0, v0)" by auto
    from grp [OF kv(1)] kv(2) show ?thesis by (auto split: if_splits)
  qed
  show "doc_key x \<in> fst ` set g'" if "x \<in> set (ps @ [r])" for x
  proof (cases "map_of g ?d")
    case None
    from None push have g': "g' = g @ [(?d, [r])]"
      by (simp add: group_push_def Let_def split: if_splits)
    from that keys show ?thesis unfolding g' by auto
  next
    case (Some w)
    with push have g': "g' = map ?upd g" by (simp add: group_push_def Let_def)
    have "set (map fst (map ?upd g)) = set (map fst g)" by (simp only: map_fst_upd)
    then have f: "fst ` set (map ?upd g) = fst ` set g" by (simp only: set_map)
    from Some have "?d \<in> fst ` set g" by (metis map_of_eq_None_iff option.distinct(1))
    with that keys show ?thesis unfolding g' f by auto
  qed
qed

lemma group_all_inv:
  assumes "group_all g rs = Inr g'"
    and "distinct (map fst g)"
    and "\<And>k v. (k, v) \<in> set g \<Longrightarrow> v = filter (\<lambda>x. doc_key x = k) ps"
    and "\<And>x. x \<in> set ps \<Longrightarrow> doc_key x \<in> fst ` set g"
  shows "distinct (map fst g') \<and>
    (\<forall>k v. (k, v) \<in> set g' \<longrightarrow> v = filter (\<lambda>x. doc_key x = k) (ps @ rs)) \<and>
    (\<forall>x \<in> set (ps @ rs). doc_key x \<in> fst ` set g')"
  using assms
proof (induction rs arbitrary: g ps)
  case Nil
  then show ?case by auto
next
  case (Cons r rs)
  from Cons.prems(1) obtain g1 where p: "group_push g r = Inr g1" and a: "group_all g1 rs = Inr g'"
    by (auto split: sum.splits)
  note inv = group_push_inv [OF p Cons.prems(2) Cons.prems(3) Cons.prems(4)]
  have "distinct (map fst g') \<and>
    (\<forall>k v. (k, v) \<in> set g' \<longrightarrow> v = filter (\<lambda>x. doc_key x = k) ((ps @ [r]) @ rs)) \<and>
    (\<forall>x \<in> set ((ps @ [r]) @ rs). doc_key x \<in> fst ` set g')"
    by (rule Cons.IH [OF a inv(1)]) (use inv(2) inv(3) in blast)+
  then show ?case by simp
qed

lemma set_object_entries: "set (object_entries g) = set g"
  by (auto simp: object_entries_def)

lemma mset_object_entries: "mset (object_entries g) = mset g"
  by (simp add: object_entries_def)

lemma distinct_object_entries:
  "distinct (map fst g) \<Longrightarrow> distinct (map fst (object_entries g))"
proof -
  have "mset (map fst (object_entries g)) = mset (map fst g)"
    by (simp add: mset_object_entries)
  then show "distinct (map fst g) \<Longrightarrow> distinct (map fst (object_entries g))"
    using mset_eq_imp_distinct_iff by blast
qed

lemma map_of_object_entries:
  "distinct (map fst g) \<Longrightarrow> map_of (object_entries g) = map_of g"
  by (simp add: map_of_inject_set distinct_object_entries set_object_entries)

lemma filter_limit:
  assumes "distinct (map fst es)"
    and "\<And>d v x. (d, v) \<in> set es \<Longrightarrow> x \<in> set v \<Longrightarrow> doc_key x = d"
  shows "filter (\<lambda>x. doc_key x = k) (concat (map (\<lambda>(d, v). take n v) es)) =
     (case map_of es k of None \<Rightarrow> [] | Some v \<Rightarrow> take n v)"
  using assms
proof (induction es)
  case Nil
  then show ?case by simp
next
  case (Cons e es)
  obtain d v where e: "e = (d, v)" by (cases e)
  have ih: "filter (\<lambda>x. doc_key x = k) (concat (map (\<lambda>(d, v). take n v) es)) =
     (case map_of es k of None \<Rightarrow> [] | Some v \<Rightarrow> take n v)"
    by (rule Cons.IH) (use Cons.prems in auto)
  have elems: "\<And>x. x \<in> set (take n v) \<Longrightarrow> doc_key x = d"
    using Cons.prems(2) [of d v] e by (auto dest: in_set_takeD)
  show ?case
  proof (cases "d = k")
    case True
    then have "k \<notin> fst ` set es" using Cons.prems(1) e by auto
    then have "map_of es k = None" by (simp add: map_of_eq_None_iff)
    moreover have "filter (\<lambda>x. doc_key x = k) (take n v) = take n v"
      using elems True by (auto simp: filter_id_conv)
    ultimately show ?thesis using ih e True by simp
  next
    case False
    have "filter (\<lambda>x. doc_key x = k) (take n v) = []"
      using elems False by (auto simp: filter_empty_conv)
    then show ?thesis using ih e False by simp
  qed
qed

lemma sorted_take_map: "sorted (map f xs) \<Longrightarrow> sorted (map f (take n xs))"
  by (simp add: take_map [symmetric] sorted_wrt_take)

lemma groupResultsByDocument_filter:
  assumes out: "groupResultsByDocument rs = Inr out"
    and sorted: "sorted (map (\<lambda>r. - similarity_score r) rs)"
  shows "filter (\<lambda>x. doc_key x = k) out = take 2 (filter (\<lambda>x. doc_key x = k) rs)"
proof (cases "length rs \<le> 1")
  case True
  with out have "out = rs" by (simp add: groupResultsByDocument_def)
  moreover have "length (filter (\<lambda>x. doc_key x = k) rs) \<le> 1"
    using True length_filter_le [of "\<lambda>x. doc_key x = k" rs] by linarith
  ultimately show ?thesis by simp
next
  case False
  with out obtain g where g: "group_all [] rs = Inr g"
    and o: "out = sort_by_score (limit_groups g)"
    by (auto simp: groupResultsByDocument_def split: sum.splits)
  have inv: "distinct (map fst g) \<and>
    (\<forall>k v. (k, v) \<in> set g \<longrightarrow> v = filter (\<lambda>x. doc_key x = k) ([] @ rs)) \<and>
    (\<forall>x \<in> set ([] @ rs). doc_key x \<in> fst ` set g)"
    by (rule group_all_inv [OF g]) simp_all
  then have dist: "distinct (map fst g)"
    and grp: "\<And>k v. (k, v) \<in> set g \<Longrightarrow> v = filter (\<lambda>x. doc_key x = k) rs"
    and keys: "\<And>x. x \<in> set rs \<Longrightarrow> doc_key x \<in> fst ` set g"
    by auto
  have lim: "filter (\<lambda>x. doc_key x = k) (limit_groups g) =
      (case map_of (object_entries g) k of None \<Rightarrow> [] | Some v \<Rightarrow> take 2 v)"
    unfolding limit_groups_def maxChunksPerDocument_def
  proof (rule filter_limit)
    show "distinct (map fst (object_entries g))" by (rule distinct_object_entries [OF dist])
    show "doc_key x = d" if "(d, v) \<in> set (object_entries g)" "x \<in> set v" for d v x
      using that grp [of d v] by (auto simp: set_object_entries)
  qed
  have grpk: "(case map_of g k of None \<Rightarrow> [] | Some v \<Rightarrow> take 2 v) =
      take 2 (filter (\<lambda>x. doc_key x = k) rs)"
  proof (cases "map_of g k")
    case None
    then have "k \<notin> fst ` set g" by (simp add: map_of_eq_None_iff)
    then have "filter (\<lambda>x. doc_key x = k) rs = []"
      using keys by (auto simp: filter_empty_conv)
    with None show ?thesis by simp
  next
    case (Some v)
    then have "(k, v) \<in> set g" by (rule map_of_SomeD)
    from grp [OF this] Some show ?thesis by simp
  qed
  have "filter (\<lambda>x. doc_key x = k) out =
      sort_key (\<lambda>r. - similarity_score r) (filter (\<lambda>x. doc_key x = k) (limit_groups g))"
    by (simp add: o sort_by_score_def filter_sort)
  also have "\<dots> = sort_key (\<lambda>r. - similarity_score r) (take 2 (filter (\<lambda>x. doc_key x = k) rs))"
    by (simp add: lim map_of_object_entries [OF dist] grpk)
  also have "\<dots> = take 2 (filter (\<lambda>x. doc_key x = k) rs)"
    by (rule sort_key_id_if_sorted) (intro sorted_take_map sorted_filter sorted)
  finally show ?thesis .
qed

lemma groupResultsByDocument_sorted:
  assumes out: "groupResultsByDocument rs = Inr out"
    and sorted: "sorted (map (\<lambda>r. - similarity_score r) rs)"
  shows "sorted (map (\<lambda>r. - similarity_score r) out)"
proof (cases "length rs \<le> 1")
  case True
  with out sorted show ?thesis by (simp add: groupResultsByDocument_def)
next
  case False
  with out show ?thesis
    by (auto simp: groupResultsByDocument_def sort_by_score_def split: sum.splits)
qed

lemma group_all_throws:
  assumes "\<exists>r \<in> set rs. doc_key r \<in> set object_prototype_names"
    and "fst ` set g \<inter> set object_prototype_names = {}"
  shows "group_all g rs = Inl TypeError"
  using assms
proof (induction rs arbitrary: g)
  case Nil
  then show ?case by simp
next
  case (Cons r rs)
  show ?case
  proof (cases "doc_key r \<in> set object_prototype_names")
    case True
    then have "doc_key r \<notin> fst ` set g" using Cons.prems(2) by auto
    then have "map_of g (doc_key r) = None" by (simp add: map_of_eq_None_iff)
    with True have "group_push g r = Inl TypeError" by (simp add: group_push_def Let_def)
    then show ?thesis by simp
  next
    case False
    with Cons.prems(1) have rest: "\<exists>r \<in> set rs. doc_key r \<in> set object_prototype_names" by auto
    show ?thesis
    proof (cases "group_push g r")
      case (Inl e)
      then show ?thesis by (cases e) simp
    next
      case (Inr g1)
      have sub: "fst ` set g1 \<subseteq> insert (doc_key r) (fst ` set g)"
      proof (cases "map_of g (doc_key r)")
        case None
        with Inr show ?thesis by (auto simp: group_push_def Let_def split: if_splits)
      next
        case (Some v)
        with Inr have "g1 = map (\<lambda>(k, v). if k = doc_key r then (k, v @ [r]) else (k, v)) g"
          by (simp add: group_push_def Let_def)
        then have "map fst g1 = map fst g" by (simp only: map_fst_upd)
        then have "set (map fst g1) = set (map fst g)" by simp
        then show ?thesis by auto
      qed
      have "fst ` set g1 \<inter> set object_prototype_names = {}"
      proof -
        have "k \<notin> set object_prototype_names" if "k \<in> fst ` set g1" for k
        proof -
          from that sub have "k = doc_key r \<or> k \<in> fst ` set g" by (rule_tac insertE) auto
          then show ?thesis using False Cons.prems(2) by (elim disjE) (simp, blast)
        qed
        then show ?thesis unfolding disjoint_iff by (intro allI impI)
      qed
      from Cons.IH [OF rest this] Inr show ?thesis by simp
    qed
  qed
qed

lemma group_all_total:
  assumes "\<forall>r \<in> set rs. doc_key r \<notin> set object_prototype_names"
  shows "\<exists>g'. group_all g rs = Inr g'"
  using assms
proof (induction rs arbitrary: g)
  case Nil
  then show ?case by simp
next
  case (Cons r rs)
  then have "\<exists>g1. group_push g r = Inr g1"
    by (auto simp: group_push_def Let_def split: option.splits)
  then obtain g1 where "group_push g r = Inr g1" ..
  moreover from Cons obtain g' where "group_all g1 rs = Inr g'" by auto
  ultimately show ?case by simp
qed

text \<open>
  The call throws exactly when it reaches the loop, with at least two results, and the
  document key of some result names a property inherited from \<open>Object.prototype\<close>.
\<close>

lemma groupResultsByDocument_throws_iff:
  "groupResultsByDocument rs = Inl TypeError \<longleftrightarrow>
     length rs > 1 \<and> (\<exists>r \<in> set rs. doc_key r \<in> set object_prototype_names)"
proof (cases "length rs \<le> 1")
  case True
  then show ?thesis by (simp add: groupResultsByDocument_def)
next
  case False
  show ?thesis
  proof (cases "\<exists>r \<in> set rs. doc_key r \<in> set object_prototype_names")
    case True
    then have "group_all [] rs = Inl TypeError" by (rule group_all_throws) simp
    with False True show ?thesis by (simp add: groupResultsByDocument_def)
  next
    case no: False
    then obtain g' where "group_all [] rs = Inr g'" using group_all_total [of rs "[]"] by auto
    with False no show ?thesis by (simp add: groupResultsByDocument_def)
  qed
qed

text \<open>
  Where the call returns, on a sequence sorted by descending score: of every document
  key the output holds the first two results of the input, which are the two of
  highest score, in their order, and nothing else; and the output is sorted by
  descending score.
\<close>

lemma groupResultsByDocument_cap:
  assumes "groupResultsByDocument rs = Inr out"
    and "sorted (map (\<lambda>r. - similarity_score r) rs)"
  shows "length (filter (\<lambda>x. doc_key x = k) out) \<le> 2
    \<and> filter (\<lambda>x. doc_key x = k) out = take 2 (filter (\<lambda>x. doc_key x = k) rs)
    \<and> sorted (map (\<lambda>r. - similarity_score r) out)"
  using groupResultsByDocument_filter [OF assms, of k] groupResultsByDocument_sorted [OF assms]
  by simp


lemmas curator_eval =
  raw_def doc_key_def js_or_def js_or_str_def truthy_str_def md_field_def
  object_prototype_names_def groupResultsByDocument_def group_push_def Let_def
  limit_groups_def object_entries_def maxChunksPerDocument_def sort_by_score_def
  is_array_index_def is_digit_def digit_chars_def int_of_digits_def digit_value_def

text \<open>
  Five results of one document with the scores 0.9, 0.8, 0.7, 0.6 and 0.5: the two of
  score 0.9 and 0.8 survive.
\<close>

lemma groupResultsByDocument_five:
  "map_sum id (map (\<lambda>r. (chunk_id r, similarity_score r)))
     (groupResultsByDocument
        [raw ''c1'' ''alpha'' (9 / 10) (Some ''doc_1'') None,
         raw ''c2'' ''beta'' (8 / 10) (Some ''doc_1'') None,
         raw ''c3'' ''gamma'' (7 / 10) (Some ''doc_1'') None,
         raw ''c4'' ''delta'' (6 / 10) (Some ''doc_1'') None,
         raw ''c5'' ''epsilon'' (5 / 10) (Some ''doc_1'') None]) =
   Inr [(''c1'', 9 / 10), (''c2'', 8 / 10)]"
  by (simp add: curator_eval)

text \<open>
  Claim C4. The grouped output holds at most 2 results per document key, the two of
  highest score, and is sorted by descending score. Two results whose document id is
  \<open>constructor\<close> have no output at all: the lookup in the plain object finds the
  inherited property, no group is created, and the call of \<open>push\<close> throws.
\<close>

theorem groupResultsByDocument_inherited_key:
  "groupResultsByDocument
     [raw ''c1'' ''alpha'' (9 / 10) (Some ''constructor'') None,
      raw ''c2'' ''beta'' (8 / 10) (Some ''constructor'') None] = Inl TypeError"
  by (simp add: curator_eval)

section \<open>The order of the document groups\<close>

lemma first_seen_snoc:
  "first_seen (xs @ [x]) = (if x \<in> set xs then first_seen xs else first_seen xs @ [x])"
proof -
  have "new_Set (xs @ [x]) = set_add (new_Set xs) x" by (simp add: new_Set_def)
  then show ?thesis by (simp add: new_Set_first_seen set_add_def set_first_seen)
qed

lemma group_push_keys:
  assumes push: "group_push g r = Inr g'"
    and keys: "map fst g = first_seen (map doc_key ps)"
  shows "map fst g' = first_seen (map doc_key (ps @ [r]))"
proof (cases "map_of g (doc_key r)")
  case None
  then have "doc_key r \<notin> fst ` set g" by (simp add: map_of_eq_None_iff)
  then have "doc_key r \<notin> set (map fst g)" by simp
  then have n: "doc_key r \<notin> doc_key ` set ps" unfolding keys set_first_seen by simp
  from None push have "g' = g @ [(doc_key r, [r])]"
    by (simp add: group_push_def Let_def split: if_splits)
  then show ?thesis using n by (simp add: first_seen_snoc keys)
next
  case (Some v)
  then have "doc_key r \<in> fst ` set g" by (metis map_of_eq_None_iff option.distinct(1))
  then have "doc_key r \<in> set (map fst g)" by simp
  then have n: "doc_key r \<in> doc_key ` set ps" unfolding keys set_first_seen by simp
  from Some push
  have "g' = map (\<lambda>(k, v). if k = doc_key r then (k, v @ [r]) else (k, v)) g"
    by (simp add: group_push_def Let_def)
  then have "map fst g' = map fst g" by (simp only: map_fst_upd)
  then show ?thesis using n by (simp add: first_seen_snoc keys)
qed

lemma group_all_keys:
  assumes "group_all g rs = Inr g'"
    and "map fst g = first_seen (map doc_key ps)"
  shows "map fst g' = first_seen (map doc_key (ps @ rs))"
  using assms
proof (induction rs arbitrary: g ps)
  case Nil
  then show ?case by simp
next
  case (Cons r rs)
  from Cons.prems(1) obtain g1 where p: "group_push g r = Inr g1" and a: "group_all g1 rs = Inr g'"
    by (auto split: sum.splits)
  have "map fst g' = first_seen (map doc_key ((ps @ [r]) @ rs))"
    by (rule Cons.IH [OF a group_push_keys [OF p Cons.prems(2)]])
  then show ?case by simp
qed

lemma groups_as_map:
  assumes "map fst g = ks"
    and "\<And>k v. (k, v) \<in> set g \<Longrightarrow> v = F k"
  shows "g = map (\<lambda>k. (k, F k)) ks"
  using assms
proof (induction g arbitrary: ks)
  case Nil
  then show ?case by simp
next
  case (Cons e g)
  obtain k v where e: "e = (k, v)" by (cases e)
  from Cons.prems(2) [of k v] e have v: "v = F k" by simp
  have "g = map (\<lambda>k. (k, F k)) (map fst g)"
    by (rule Cons.IH) (use Cons.prems(2) in auto)
  with Cons.prems(1) e v show ?case by auto
qed

lemma sort_key_map_pair:
  "sort_key (\<lambda>(k, v). f k) (map (\<lambda>k. (k, F k)) ks) = map (\<lambda>k. (k, F k)) (sort_key f ks)"
proof (induction ks)
  case Nil
  then show ?case by simp
next
  case (Cons k ks)
  have ins: "insort_key (\<lambda>(k, v). f k) (k, F k) (map (\<lambda>k. (k, F k)) xs) =
             map (\<lambda>k. (k, F k)) (insort_key f k xs)" for xs
    by (induction xs) simp_all
  show ?case using Cons.IH by (simp add: ins)
qed

lemma object_entries_map:
  "object_entries (map (\<lambda>k. (k, F k)) ks) =
     map (\<lambda>k. (k, F k))
       (sort_key int_of_digits (filter is_array_index ks) @ filter (\<lambda>k. \<not> is_array_index k) ks)"
  by (simp add: object_entries_def filter_map comp_def sort_key_map_pair)

lemma group_all_order:
  assumes "group_all [] rs = Inr g"
  shows "limit_groups g =
     concat (map (\<lambda>k. take 2 (filter (\<lambda>r. doc_key r = k) rs)) (group_order (map doc_key rs)))"
proof -
  from group_all_inv [OF assms, of "[]"]
  have grp: "\<And>k v. (k, v) \<in> set g \<Longrightarrow> v = filter (\<lambda>x. doc_key x = k) rs" by simp
  from group_all_keys [OF assms, of "[]"]
  have keys: "map fst g = first_seen (map doc_key rs)" by simp
  have g: "g = map (\<lambda>k. (k, filter (\<lambda>x. doc_key x = k) rs)) (first_seen (map doc_key rs))"
    by (rule groups_as_map [OF keys grp])
  show ?thesis
    by (subst g)
       (simp add: limit_groups_def object_entries_map group_order_def maxChunksPerDocument_def
          comp_def)
qed

lemma groupResultsByDocument_order:
  assumes "groupResultsByDocument rs = Inr out"
  shows "out = sort_key (\<lambda>r. - similarity_score r)
     (concat (map (\<lambda>k. take 2 (filter (\<lambda>r. doc_key r = k) rs)) (group_order (map doc_key rs))))"
proof (cases "length rs \<le> 1")
  case True
  then consider "rs = []" | r where "rs = [r]" by (cases rs) auto
  then show ?thesis
  proof cases
    case 1
    with assms show ?thesis by (simp add: groupResultsByDocument_def group_order_def)
  next
    case 2
    with assms have o: "out = [r]" by (simp add: groupResultsByDocument_def)
    show ?thesis unfolding o 2
      by (cases "is_array_index (doc_key r)") (simp_all add: group_order_def)
  qed
next
  case False
  with assms obtain g where g: "group_all [] rs = Inr g" and o: "out = sort_by_score (limit_groups g)"
    by (auto simp: groupResultsByDocument_def split: sum.splits)
  show ?thesis unfolding o sort_by_score_def group_all_order [OF g] ..
qed

section \<open>Properties of the formatting with citations\<close>

lemma sorted_foldl_dedup:
  "sorted (map f (acc @ rs)) \<Longrightarrow> sorted (map f (foldl dedup_step acc rs))"
proof (induction rs arbitrary: acc)
  case Nil
  then show ?case by simp
next
  case (Cons r rs)
  have "sorted (map f (dedup_step acc r @ rs))"
    using Cons.prems by (auto simp: dedup_step_def sorted_append)
  then show ?case using Cons.IH by simp
qed

lemma sorted_deduplicateResults:
  "sorted (map f rs) \<Longrightarrow> sorted (map f (deduplicateResults rs))"
  using sorted_foldl_dedup [of f "[]" rs] by (simp add: deduplicateResults_foldl)

lemma sorted_sort_by_score: "sorted (map (\<lambda>r. - similarity_score r) (sort_by_score rs))"
  by (simp add: sort_by_score_def)

lemma cr_doc_key_annotate: "cr_doc_key (annotate q i r) = doc_key r"
  by (cases "metadata r")
     (simp_all add: cr_doc_key_def annotate_def doc_key_def md_field_def no_metadata_def)

lemma citation_annotate:
  "citation (annotate q i r) =
     ''['' @ show_nat (rank (annotate q i r)) @ ''] Source: ''
     @ (case md_source (cr_metadata (annotate q i r)) of
          None \<Rightarrow> ''Unknown Document''
        | Some s \<Rightarrow> if s = [] then ''Unknown Document'' else s)"
  by (cases "metadata r")
     (simp_all add: annotate_def md_field_def no_metadata_def js_or_str_def split: option.splits)

lemma annotate_fields:
  "rank (annotate q i r) = i + 1"
  "score (annotate q i r) = similarity_score r"
  "cr_id (annotate q i r) = chunk_id r"
  by (simp_all add: annotate_def)

lemma map_rank_annotate:
  "map rank (map (\<lambda>(i, r). annotate q i r) (enumerate n xs)) = [n + 1..<n + length xs + 1]"
proof (induction xs arbitrary: n)
  case Nil
  then show ?case by simp
next
  case (Cons x xs)
  have "[n + 1..<n + length (x # xs) + 1] = (n + 1) # [Suc n + 1..<Suc n + length xs + 1]"
    by (subst upt_rec) simp
  then show ?case using Cons.IH [of "Suc n"] by (simp add: annotate_fields del: upt_Suc)
qed

lemma map_score_annotate:
  "map score (map (\<lambda>(i, r). annotate q i r) (enumerate n xs)) = map similarity_score xs"
  by (induction xs arbitrary: n) (simp_all add: annotate_fields)

lemma filter_annotate:
  "map (\<lambda>c. (cr_id c, score c))
     (filter (\<lambda>c. cr_doc_key c = k) (map (\<lambda>(i, r). annotate q i r) (enumerate n xs))) =
   map (\<lambda>r. (chunk_id r, similarity_score r)) (filter (\<lambda>r. doc_key r = k) xs)"
  by (induction xs arbitrary: n) (simp_all add: cr_doc_key_annotate annotate_fields)

lemma pairs_annotate:
  "map (\<lambda>c. (cr_id c, score c)) (map (\<lambda>(i, r). annotate q i r) (enumerate n xs)) =
   map (\<lambda>r. (chunk_id r, similarity_score r)) xs"
  by (induction xs arbitrary: n) (simp_all add: annotate_fields)

text \<open>
  Claim C5. Where the curator returns an output of length \<open>N\<close>: the ranks are the
  integers 1 to \<open>N\<close> in the order of the output, and the scores descend along it. The
  results of one document are, in rank order, the first two of that document in the
  deduplicated stable sort of the input, so that ties within a document keep the
  original order. The whole output is the stable sort by descending score of the
  concatenation of these pairs, document by document in the order of the groups: the
  keys that are array indices in ascending numeric order, then the other keys in order
  of first appearance; so ties between documents keep the order of the groups. Every
  citation is \<open>[rank] Source: name\<close>, where the name is the \<open>source\<close> field of the
  metadata when it is a non-empty string and \<open>Unknown Document\<close> otherwise.
\<close>

theorem formatResultsWithCitations_ranks:
  assumes "formatResultsWithCitations rs q = Inr out"
  shows "map rank out = [1..<length out + 1]
    \<and> sorted (map (\<lambda>c. - score c) out)
    \<and> (\<forall>k. map (\<lambda>c. (cr_id c, score c)) (filter (\<lambda>c. cr_doc_key c = k) out) =
            map (\<lambda>r. (chunk_id r, similarity_score r))
              (take 2 (filter (\<lambda>r. doc_key r = k) (deduplicateResults (sort_by_score rs)))))
    \<and> map (\<lambda>c. (cr_id c, score c)) out =
        map (\<lambda>r. (chunk_id r, similarity_score r))
          (sort_key (\<lambda>r. - similarity_score r)
             (concat
                (map (\<lambda>k. take 2 (filter (\<lambda>r. doc_key r = k)
                                    (deduplicateResults (sort_by_score rs))))
                   (group_order (map doc_key (deduplicateResults (sort_by_score rs)))))))
    \<and> (\<forall>c \<in> set out.
          citation c =
            ''['' @ show_nat (rank c) @ ''] Source: ''
            @ (case md_source (cr_metadata c) of
                 None \<Rightarrow> ''Unknown Document''
               | Some s \<Rightarrow> if s = [] then ''Unknown Document'' else s))"
proof (cases "rs = []")
  case True
  with assms have "out = []" by (simp add: formatResultsWithCitations_def)
  with True show ?thesis
    by (simp add: sort_by_score_def deduplicateResults_def group_order_def)
next
  case False
  let ?d = "deduplicateResults (sort_by_score rs)"
  from False assms obtain final where g: "groupResultsByDocument ?d = Inr final"
    and out: "out = map (\<lambda>(i, r). annotate q i r) (enumerate 0 final)"
    by (auto simp: formatResultsWithCitations_def Let_def split: sum.splits)
  have sd: "sorted (map (\<lambda>r. - similarity_score r) ?d)"
    by (intro sorted_deduplicateResults sorted_sort_by_score)
  have 1: "map rank out = [1..<length out + 1]"
    using map_rank_annotate [of q 0 final] by (simp add: out)
  have "map (\<lambda>c. - score c) out = map uminus (map score out)" by simp
  also have "\<dots> = map (\<lambda>r. - similarity_score r) final"
    unfolding out map_score_annotate by simp
  finally have 2: "sorted (map (\<lambda>c. - score c) out)"
    using groupResultsByDocument_sorted [OF g sd] by simp
  have 3: "map (\<lambda>c. (cr_id c, score c)) (filter (\<lambda>c. cr_doc_key c = k) out) =
            map (\<lambda>r. (chunk_id r, similarity_score r))
              (take 2 (filter (\<lambda>r. doc_key r = k) ?d))" for k
    unfolding out filter_annotate groupResultsByDocument_filter [OF g sd] ..
  have "map (\<lambda>c. (cr_id c, score c)) out = map (\<lambda>r. (chunk_id r, similarity_score r)) final"
    unfolding out by (rule pairs_annotate)
  then have 4: "map (\<lambda>c. (cr_id c, score c)) out =
        map (\<lambda>r. (chunk_id r, similarity_score r))
          (sort_key (\<lambda>r. - similarity_score r)
             (concat (map (\<lambda>k. take 2 (filter (\<lambda>r. doc_key r = k) ?d))
                        (group_order (map doc_key ?d)))))"
    using groupResultsByDocument_order [OF g] by simp
  have 5: "citation c =
            ''['' @ show_nat (rank c) @ ''] Source: ''
            @ (case md_source (cr_metadata c) of
                 None \<Rightarrow> ''Unknown Document''
               | Some s \<Rightarrow> if s = [] then ''Unknown Document'' else s)"
    if "c \<in> set out" for c
  proof -
    from that obtain i r where "c = annotate q i r" unfolding out by auto
    then show ?thesis by (simp only: citation_annotate)
  qed
  from 1 2 3 4 5 show ?thesis by blast
qed
text \<open>
  An input with a tie between documents: \<open>c1\<close>, \<open>c2\<close> and \<open>c3\<close> have the score \<open>1/2\<close>
  and the document keys \<open>7\<close>, \<open>b\<close> and \<open>10\<close>, and \<open>c4\<close> of document \<open>b\<close> has the
  score \<open>3/4\<close>. The groups are listed in the order \<open>7\<close>, \<open>10\<close>, \<open>b\<close>, so that the output
  is \<open>c4\<close>, \<open>c1\<close>, \<open>c3\<close>, \<open>c2\<close>.
\<close>

lemma dedup_eval_w:
  "deduplicateResults
     [raw ''c4'' ''delta'' (3 / 4) (Some ''b'')
        (Some (no_metadata\<lparr>md_source := Some ''manual.pdf'',
               md_source_file := Some ''manual.pdf''\<rparr>)),
      raw ''c1'' ''alpha'' (1 / 2) (Some ''7'') None,
      raw ''c2'' ''beta'' (1 / 2) (Some ''b'') None,
      raw ''c3'' ''gamma'' (1 / 2) (Some ''10'') None] =
     [raw ''c4'' ''delta'' (3 / 4) (Some ''b'')
        (Some (no_metadata\<lparr>md_source := Some ''manual.pdf'',
               md_source_file := Some ''manual.pdf''\<rparr>)),
      raw ''c1'' ''alpha'' (1 / 2) (Some ''7'') None,
      raw ''c2'' ''beta'' (1 / 2) (Some ''b'') None,
      raw ''c3'' ''gamma'' (1 / 2) (Some ''10'') None]"
  by code_simp

theorem formatResultsWithCitations_ranks_witness:
  "map_sum id (map (\<lambda>c. (cr_id c, score c)))
     (formatResultsWithCitations
        [raw ''c1'' ''alpha'' (1 / 2) (Some ''7'') None,
         raw ''c2'' ''beta'' (1 / 2) (Some ''b'') None,
         raw ''c3'' ''gamma'' (1 / 2) (Some ''10'') None,
         raw ''c4'' ''delta'' (3 / 4) (Some ''b'')
           (Some (no_metadata\<lparr>md_source := Some ''manual.pdf'',
               md_source_file := Some ''manual.pdf''\<rparr>))]
        ''alpha'') =
     Inr [(''c4'', 3 / 4), (''c1'', 1 / 2), (''c3'', 1 / 2), (''c2'', 1 / 2)]
   \<and> map_sum id (map rank)
     (formatResultsWithCitations
        [raw ''c1'' ''alpha'' (1 / 2) (Some ''7'') None,
         raw ''c2'' ''beta'' (1 / 2) (Some ''b'') None,
         raw ''c3'' ''gamma'' (1 / 2) (Some ''10'') None,
         raw ''c4'' ''delta'' (3 / 4) (Some ''b'')
           (Some (no_metadata\<lparr>md_source := Some ''manual.pdf'',
               md_source_file := Some ''manual.pdf''\<rparr>))]
        ''alpha'') = Inr [1, 2, 3, 4]
   \<and> map_sum id (map citation)
     (formatResultsWithCitations
        [raw ''c1'' ''alpha'' (1 / 2) (Some ''7'') None,
         raw ''c2'' ''beta'' (1 / 2) (Some ''b'') None,
         raw ''c3'' ''gamma'' (1 / 2) (Some ''10'') None,
         raw ''c4'' ''delta'' (3 / 4) (Some ''b'')
           (Some (no_metadata\<lparr>md_source := Some ''manual.pdf'',
               md_source_file := Some ''manual.pdf''\<rparr>))]
        ''alpha'') =
     Inr [''[1] Source: manual.pdf'', ''[2] Source: Unknown Document'',
          ''[3] Source: Unknown Document'', ''[4] Source: Unknown Document'']"
proof -
  let ?r1 = "raw ''c1'' ''alpha'' (1 / 2) (Some ''7'') None"
  let ?r2 = "raw ''c2'' ''beta'' (1 / 2) (Some ''b'') None"
  let ?r3 = "raw ''c3'' ''gamma'' (1 / 2) (Some ''10'') None"
  let ?r4 = "raw ''c4'' ''delta'' (3 / 4) (Some ''b'')
           (Some (no_metadata\<lparr>md_source := Some ''manual.pdf'',
               md_source_file := Some ''manual.pdf''\<rparr>))"
  define out where
    "out = map (\<lambda>(i, r). annotate ''alpha'' i r) (enumerate 0 [?r4, ?r1, ?r3, ?r2])"
  have s: "sort_by_score [?r1, ?r2, ?r3, ?r4] = [?r4, ?r1, ?r2, ?r3]"
    by (simp add: sort_by_score_def raw_def)
  have g: "groupResultsByDocument [?r4, ?r1, ?r2, ?r3] = Inr [?r4, ?r1, ?r3, ?r2]"
    by (simp add: curator_eval no_metadata_def)
  have e: "formatResultsWithCitations [?r1, ?r2, ?r3, ?r4] ''alpha'' = Inr out"
    unfolding out_def
    by (simp add: formatResultsWithCitations_def s dedup_eval_w g del: enumerate_simps)
  have l: "length out = 4" by (simp add: out_def)
  note t = formatResultsWithCitations_ranks [OF e, unfolded s dedup_eval_w]
  from t have "map rank out = [1..<length out + 1]" by (rule conjunct1)
  then have r: "map rank out = [1, 2, 3, 4]" by (simp add: l upt_rec)
  from t have "map (\<lambda>c. (cr_id c, score c)) out =
        map (\<lambda>r. (chunk_id r, similarity_score r))
          (sort_key (\<lambda>r. - similarity_score r)
             (concat
                (map (\<lambda>k. take 2 (filter (\<lambda>r. doc_key r = k) [?r4, ?r1, ?r2, ?r3]))
                   (group_order (map doc_key [?r4, ?r1, ?r2, ?r3])))))"
    by (rule conjunct1 [OF conjunct2 [OF conjunct2 [OF conjunct2]]])
  also have "\<dots> = [(''c4'', 3 / 4), (''c1'', 1 / 2), (''c3'', 1 / 2), (''c2'', 1 / 2)]"
    by (simp add: group_order_def curator_eval no_metadata_def)
  finally have i: "map (\<lambda>c. (cr_id c, score c)) out =
     [(''c4'', 3 / 4), (''c1'', 1 / 2), (''c3'', 1 / 2), (''c2'', 1 / 2)]" .
  have c: "map citation out =
     [''[1] Source: manual.pdf'', ''[2] Source: Unknown Document'',
      ''[3] Source: Unknown Document'', ''[4] Source: Unknown Document'']"
    by (simp add: out_def annotate_def raw_def md_field_def js_or_str_def no_metadata_def
        show_nat.simps digit_chars_def)
  show ?thesis unfolding e by (simp add: i r c)
qed

text \<open>
  Ties between results of different documents do not keep the original order: the
  groups are concatenated document by document before the final stable sort. Below,
  three results of equal score arrive in the order \<open>c1\<close>, \<open>c2\<close>, \<open>c3\<close>, where \<open>c1\<close>
  and \<open>c3\<close> belong to document \<open>A\<close>; \<open>c3\<close> gets rank 2 and \<open>c2\<close> rank 3. The
  metadata of \<open>c1\<close> has a \<open>source_file\<close> and no \<open>source\<close>: the citation names
  \<open>Unknown Document\<close>, and the \<open>source_file\<close> of the output is \<open>unknown\<close>.
\<close>

lemma dedup_eval_c:
  "deduplicateResults
     [raw ''c1'' ''alpha'' (1 / 2) (Some ''A'')
        (Some (no_metadata\<lparr>md_source_file := Some ''guide.pdf''\<rparr>)),
      raw ''c2'' ''beta'' (1 / 2) (Some ''B'') None,
      raw ''c3'' ''gamma'' (1 / 2) (Some ''A'') None] =
     [raw ''c1'' ''alpha'' (1 / 2) (Some ''A'')
        (Some (no_metadata\<lparr>md_source_file := Some ''guide.pdf''\<rparr>)),
      raw ''c2'' ''beta'' (1 / 2) (Some ''B'') None,
      raw ''c3'' ''gamma'' (1 / 2) (Some ''A'') None]"
  by code_simp

theorem formatResultsWithCitations_tie_counterexample:
  "map_sum id (map (\<lambda>c. (cr_id c, rank c, score c, src_source_file (cr_source c), citation c)))
     (formatResultsWithCitations
        [raw ''c1'' ''alpha'' (1 / 2) (Some ''A'')
           (Some (no_metadata\<lparr>md_source_file := Some ''guide.pdf''\<rparr>)),
         raw ''c2'' ''beta'' (1 / 2) (Some ''B'') None,
         raw ''c3'' ''gamma'' (1 / 2) (Some ''A'') None]
        ''alpha'') =
   Inr [(''c1'', 1, 1 / 2, ''unknown'', ''[1] Source: Unknown Document''),
        (''c3'', 2, 1 / 2, ''unknown'', ''[2] Source: Unknown Document''),
        (''c2'', 3, 1 / 2, ''unknown'', ''[3] Source: Unknown Document'')]"
proof -
  let ?r1 = "raw ''c1'' ''alpha'' (1 / 2) (Some ''A'')
           (Some (no_metadata\<lparr>md_source_file := Some ''guide.pdf''\<rparr>))"
  let ?r2 = "raw ''c2'' ''beta'' (1 / 2) (Some ''B'') None"
  let ?r3 = "raw ''c3'' ''gamma'' (1 / 2) (Some ''A'') None"
  have s: "sort_by_score [?r1, ?r2, ?r3] = [?r1, ?r2, ?r3]"
    by (simp add: sort_by_score_def raw_def)
  have g: "groupResultsByDocument [?r1, ?r2, ?r3] = Inr [?r1, ?r3, ?r2]"
    by (simp add: curator_eval no_metadata_def)
  show ?thesis
    by (simp add: formatResultsWithCitations_def s dedup_eval_c g)
       (simp add: annotate_def raw_def md_field_def js_or_str_def no_metadata_def
          show_nat.simps digit_chars_def)
qed

section \<open>Properties of the quality gate\<close>

lemma foldl_js_max: "foldl js_max (Num m) xs = Num (Max (insert m (set xs)))"
proof (induction xs arbitrary: m)
  case Nil
  then show ?case by simp
next
  case (Cons x xs)
  have "Max (insert (max m x) (set xs)) = Max (insert m (insert x (set xs)))"
    by (cases "set xs = {}") (simp_all add: max.assoc max.commute max.left_commute)
  then show ?case using Cons.IH [of "max m x"] by simp
qed

lemma math_max_nonempty: "xs \<noteq> [] \<Longrightarrow> math_max xs = Num (Max (set xs))"
  by (cases xs) (simp_all add: math_max_def foldl_js_max)

lemma length_unique_documents:
  "length (new_Set (map document_of (map format_result rs))) =
     card (document_of ` format_result ` set rs)"
  by (simp add: length_new_Set image_image)

lemma scores_format_result: "map fr_score (map format_result rs) = map similarity_score rs"
  by (induction rs) (simp_all add: format_result_def)

lemma validate_empty:
  "validateRetrievalQuality [] fs =
     \<lparr>isValid = False, reason = ''No relevant documents found'',
      details = ''Retrieved 0 results from vector store''\<rparr>"
  by (simp add: validateRetrievalQuality_def)

lemma validate_low:
  assumes "rs \<noteq> []" "math_max (map fr_score fs) = Num m" "m < 1 / 10"
  shows "validateRetrievalQuality rs fs =
     \<lparr>isValid = False,
      reason = ''Maximum similarity score ('' @ fixed3 m @ '') below minimum threshold (0.1)'',
      details = ''Best match score: '' @ fixed3 m @ '', threshold: 0.1''\<rparr>"
  using assms by (simp add: validateRetrievalQuality_def Let_def MIN_SIMILARITY_THRESHOLD_def)

lemma validate_high:
  assumes "rs \<noteq> []" "math_max (map fr_score fs) = Num m" "1 / 10 \<le> m"
    "1 \<le> length (new_Set (map document_of fs))"
  shows "validateRetrievalQuality rs fs =
     \<lparr>isValid = True, reason = ''All quality checks passed'',
      details = ''Max similarity: '' @ fixed3 m @ '', Unique docs: ''
        @ show_nat (length (new_Set (map document_of fs)))\<rparr>"
proof -
  from assms(4) have "new_Set (map document_of fs) \<noteq> []" by auto
  with assms show ?thesis
    by (simp add: validateRetrievalQuality_def Let_def MIN_SIMILARITY_THRESHOLD_def
        MIN_UNIQUE_DOCUMENTS_def not_less)
qed

text \<open>
  Claim C2. The verdict of the quality gate on a sequence of results: for the empty
  sequence it is invalid, with the reason \<open>No relevant documents found\<close> and the
  details \<open>Retrieved 0 results from vector store\<close>; for a non-empty sequence whose
  maximum score is below 0.1 it is invalid, and the reason names the maximum, printed
  with three decimals, and the threshold; otherwise there is at least one distinct
  document, the verdict is valid, and the details report the maximum score and the
  number of distinct documents.
\<close>

theorem validateRetrievalQuality_verdict:
  "(rs = [] \<longrightarrow>
      validateRetrievalQuality rs (map format_result rs) =
        \<lparr>isValid = False, reason = ''No relevant documents found'',
         details = ''Retrieved 0 results from vector store''\<rparr>)
   \<and> (rs \<noteq> [] \<and> Max (set (map similarity_score rs)) < 1 / 10 \<longrightarrow>
      \<not> isValid (validateRetrievalQuality rs (map format_result rs))
      \<and> reason (validateRetrievalQuality rs (map format_result rs)) =
          ''Maximum similarity score ('' @ fixed3 (Max (set (map similarity_score rs)))
          @ '') below minimum threshold (0.1)'')
   \<and> (rs \<noteq> [] \<and> 1 / 10 \<le> Max (set (map similarity_score rs)) \<longrightarrow>
      isValid (validateRetrievalQuality rs (map format_result rs))
      \<and> 1 \<le> card (document_of ` format_result ` set rs)
      \<and> details (validateRetrievalQuality rs (map format_result rs)) =
          ''Max similarity: '' @ fixed3 (Max (set (map similarity_score rs)))
          @ '', Unique docs: '' @ show_nat (card (document_of ` format_result ` set rs)))"
proof (intro conjI)
  let ?m = "Max (set (map similarity_score rs))"
  let ?v = "validateRetrievalQuality rs (map format_result rs)"
  have m: "math_max (map fr_score (map format_result rs)) = Num ?m" if "rs \<noteq> []"
    unfolding scores_format_result using that by (intro math_max_nonempty) simp
  have c: "1 \<le> card (document_of ` format_result ` set rs)" if "rs \<noteq> []"
    using that by (simp add: Suc_le_eq card_gt_0_iff)
  show "rs = [] \<longrightarrow> ?v =
        \<lparr>isValid = False, reason = ''No relevant documents found'',
         details = ''Retrieved 0 results from vector store''\<rparr>"
    by (auto simp only: validate_empty)
  show "rs \<noteq> [] \<and> ?m < 1 / 10 \<longrightarrow>
      \<not> isValid ?v
      \<and> reason ?v = ''Maximum similarity score ('' @ fixed3 ?m
          @ '') below minimum threshold (0.1)''"
  proof
    assume h: "rs \<noteq> [] \<and> ?m < 1 / 10"
    then have ne: "rs \<noteq> []" and lo: "?m < 1 / 10" by (rule conjunct1, rule conjunct2)
    show "\<not> isValid ?v \<and> reason ?v = ''Maximum similarity score ('' @ fixed3 ?m
          @ '') below minimum threshold (0.1)''"
      unfolding validate_low [OF ne m [OF ne] lo] by simp
  qed
  show "rs \<noteq> [] \<and> 1 / 10 \<le> ?m \<longrightarrow>
      isValid ?v
      \<and> 1 \<le> card (document_of ` format_result ` set rs)
      \<and> details ?v = ''Max similarity: '' @ fixed3 ?m
          @ '', Unique docs: '' @ show_nat (card (document_of ` format_result ` set rs))"
  proof
    assume h: "rs \<noteq> [] \<and> 1 / 10 \<le> ?m"
    then have ne: "rs \<noteq> []" and hi: "1 / 10 \<le> ?m" by (rule conjunct1, rule conjunct2)
    have u: "1 \<le> length (new_Set (map document_of (map format_result rs)))"
      unfolding length_unique_documents by (rule c [OF ne])
    show "isValid ?v
      \<and> 1 \<le> card (document_of ` format_result ` set rs)
      \<and> details ?v = ''Max similarity: '' @ fixed3 ?m
          @ '', Unique docs: '' @ show_nat (card (document_of ` format_result ` set rs))"
      unfolding validate_high [OF ne m [OF ne] hi u] length_unique_documents
      using c [OF ne] by simp
  qed
qed



theorem validateRetrievalQuality_verdict_witness:
  "validateRetrievalQuality [] (map format_result []) =
     \<lparr>isValid = False, reason = ''No relevant documents found'',
      details = ''Retrieved 0 results from vector store''\<rparr>
   \<and> Max (set (map similarity_score [raw ''c1'' ''alpha'' (1 / 20) None None])) = 1 / 20
   \<and> \<not> isValid (validateRetrievalQuality [raw ''c1'' ''alpha'' (1 / 20) None None]
        (map format_result [raw ''c1'' ''alpha'' (1 / 20) None None]))
   \<and> reason (validateRetrievalQuality [raw ''c1'' ''alpha'' (1 / 20) None None]
        (map format_result [raw ''c1'' ''alpha'' (1 / 20) None None])) =
      ''Maximum similarity score (0.050) below minimum threshold (0.1)''
   \<and> Max (set (map similarity_score [raw ''c1'' ''alpha'' (1 / 2) None None])) = 1 / 2
   \<and> isValid (validateRetrievalQuality [raw ''c1'' ''alpha'' (1 / 2) None None]
        (map format_result [raw ''c1'' ''alpha'' (1 / 2) None None]))
   \<and> details (validateRetrievalQuality [raw ''c1'' ''alpha'' (1 / 2) None None]
        (map format_result [raw ''c1'' ''alpha'' (1 / 2) None None])) =
     ''Max similarity: 0.500, Unique docs: 1''"
proof -
  let ?lo = "[raw ''c1'' ''alpha'' (1 / 20) None None]"
  let ?hi = "[raw ''c1'' ''alpha'' (1 / 2) None None]"
  have f: "fixed3 (1 / 20) = ''0.050''" "fixed3 (1 / 2) = ''0.500''"
    by code_simp+
  have n: "show_nat 1 = ''1''"
    by (simp add: show_nat.simps digit_chars_def)
  have ml: "Max (set (map similarity_score ?lo)) = 1 / 20"
    and mh: "Max (set (map similarity_score ?hi)) = 1 / 2"
    by (simp_all add: raw_def)
  have c1: "card (document_of ` format_result ` set ?hi) = 1" by simp
  note e = validateRetrievalQuality_verdict [of "[]", THEN conjunct1, rule_format, OF refl]
  have l: "?lo \<noteq> [] \<and> Max (set (map similarity_score ?lo)) < 1 / 10"
    unfolding ml by simp
  note lo = validateRetrievalQuality_verdict
    [of ?lo, THEN conjunct2, THEN conjunct1, rule_format, OF l, unfolded ml f]
  have h: "?hi \<noteq> [] \<and> 1 / 10 \<le> Max (set (map similarity_score ?hi))"
    unfolding mh by simp
  note hi = validateRetrievalQuality_verdict
    [of ?hi, THEN conjunct2, THEN conjunct2, rule_format, OF h, unfolded mh c1 f n]
  have r1: "reason (validateRetrievalQuality ?lo (map format_result ?lo)) =
      ''Maximum similarity score (0.050) below minimum threshold (0.1)''"
    using lo [THEN conjunct2] by simp
  have d1: "details (validateRetrievalQuality ?hi (map format_result ?hi)) =
      ''Max similarity: 0.500, Unique docs: 1''"
    using hi [THEN conjunct2, THEN conjunct2] by simp
  show ?thesis
    by (intro conjI) (rule e ml lo [THEN conjunct1] r1 mh hi [THEN conjunct1] d1)+
qed

text \<open>
  The reason given for the empty sequence does not mention \<open>no results\<close>: the words
  do not occur in it.
\<close>

theorem validateRetrievalQuality_empty_counterexample:
  "reason (validateRetrievalQuality [] (map format_result [])) = ''No relevant documents found''
   \<and> \<not> mentions (reason (validateRetrievalQuality [] (map format_result []))) ''no results''"
proof -
  have "\<not> mentions ''No relevant documents found'' ''no results''"
    by code_simp
  then show ?thesis by (simp add: validate_empty)
qed

section \<open>Properties of the cache service\<close>

lemma cache_inv_empty: "cache_inv empty_cache"
  by (simp add: cache_inv_def empty_cache_def)

lemma cache_invD:
  assumes "cache_inv s"
  shows "distinct (map timer_id (timers s))"
    and "\<And>t. t \<in> set (timers s) \<Longrightarrow> cacheTimeouts s (timer_key t) = Some (timer_id t)"
    and "\<And>t. t \<in> set (timers s) \<Longrightarrow> timer_id t < next_timer s"
    and "\<And>k tid. cacheTimeouts s k = Some tid \<Longrightarrow>
           \<exists>t \<in> set (timers s). timer_id t = tid \<and> timer_key t = k"
  using assms unfolding cache_inv_def by blast+

lemma timer_id_inj:
  assumes "cache_inv s" "t \<in> set (timers s)" "u \<in> set (timers s)" "timer_id t = timer_id u"
  shows "t = u"
  using cache_invD(1) [OF assms(1)] assms(2-4) by (meson distinct_map inj_onD)

lemma same_key_same_timer:
  assumes "cache_inv s" "t \<in> set (timers s)" "u \<in> set (timers s)" "timer_key t = timer_key u"
  shows "t = u"
proof -
  have "Some (timer_id t) = Some (timer_id u)"
    using cache_invD(2) [OF assms(1) assms(2)] cache_invD(2) [OF assms(1) assms(3)] assms(4)
    by simp
  then show ?thesis using timer_id_inj [OF assms(1-3)] by simp
qed

lemma cache_inv_unique:
  assumes "cache_inv s"
  shows "length (timers_of k s) \<le> 1"
proof -
  have d: "distinct (timers_of k s)"
    using cache_invD(1) [OF assms] by (simp add: timers_of_def distinct_map)
  have "t = u" if "t \<in> set (timers_of k s)" "u \<in> set (timers_of k s)" for t u
    using that same_key_same_timer [OF assms, of t u] by (simp add: timers_of_def)
  then have "card (set (timers_of k s)) \<le> 1"
    by (metis card_le_Suc0_iff_eq finite_set One_nat_def)
  then show ?thesis using d by (simp add: distinct_card)
qed


lemma cache_inv_remove_key:
  assumes "cache_inv s"
    and "timers s' = filter (\<lambda>t. timer_key t \<noteq> k) (timers s)"
    and "cacheTimeouts s' = (cacheTimeouts s)(k := None)"
    and "next_timer s' = next_timer s"
  shows "cache_inv s'"
  unfolding cache_inv_def
proof (intro conjI ballI allI impI)
  show "distinct (map timer_id (timers s'))"
    using cache_invD(1) [OF assms(1)] by (simp add: assms(2) distinct_map_filter)
  fix t assume t: "t \<in> set (timers s')"
  then have ts: "t \<in> set (timers s)" and tk: "timer_key t \<noteq> k" by (simp_all add: assms(2))
  show "cacheTimeouts s' (timer_key t) = Some (timer_id t)"
    using cache_invD(2) [OF assms(1) ts] tk by (simp add: assms(3))
  show "timer_id t < next_timer s'"
    using cache_invD(3) [OF assms(1) ts] by (simp add: assms(4))
next
  fix k' tid assume "cacheTimeouts s' k' = Some tid"
  then have k': "k' \<noteq> k" and c: "cacheTimeouts s k' = Some tid"
    by (auto simp: assms(3) split: if_splits)
  from cache_invD(4) [OF assms(1) c] obtain t where
    "t \<in> set (timers s)" "timer_id t = tid" "timer_key t = k'" by blast
  with k' show "\<exists>t \<in> set (timers s'). timer_id t = tid \<and> timer_key t = k'"
    by (auto simp: assms(2))
qed

lemma cache_inv_add_timer:
  assumes "cache_inv s"
    and "\<And>t. t \<in> set (timers s) \<Longrightarrow> timer_key t \<noteq> k"
    and "timers s' = timers s @ [\<lparr>timer_id = next_timer s, timer_key = k, due = d\<rparr>]"
    and "cacheTimeouts s' = (cacheTimeouts s)(k \<mapsto> next_timer s)"
    and "next_timer s' = next_timer s + 1"
  shows "cache_inv s'"
  unfolding cache_inv_def
proof (intro conjI ballI allI impI)
  have fresh: "next_timer s \<notin> timer_id ` set (timers s)"
  proof
    assume "next_timer s \<in> timer_id ` set (timers s)"
    then obtain x where x: "x \<in> set (timers s)" "next_timer s = timer_id x" by auto
    from cache_invD(3) [OF assms(1) x(1)] x(2) show False by simp
  qed
  show "distinct (map timer_id (timers s'))"
    using cache_invD(1) [OF assms(1)] fresh by (simp add: assms(3))
  fix t assume "t \<in> set (timers s')"
  then consider "t \<in> set (timers s)" | "t = \<lparr>timer_id = next_timer s, timer_key = k, due = d\<rparr>"
    by (auto simp: assms(3))
  then show "cacheTimeouts s' (timer_key t) = Some (timer_id t)"
  proof cases
    case 1
    with assms(2) cache_invD(2) [OF assms(1) 1] show ?thesis by (simp add: assms(4))
  next
    case 2
    then show ?thesis by (simp add: assms(4))
  qed
  from \<open>t \<in> set (timers s')\<close> show "timer_id t < next_timer s'"
    using cache_invD(3) [OF assms(1)] by (auto simp: assms(3) assms(5) less_Suc_eq)
next
  fix k' tid assume c: "cacheTimeouts s' k' = Some tid"
  show "\<exists>t \<in> set (timers s'). timer_id t = tid \<and> timer_key t = k'"
  proof (cases "k' = k")
    case True
    with c show ?thesis by (simp add: assms(3) assms(4))
  next
    case False
    with c have "cacheTimeouts s k' = Some tid" by (simp add: assms(4))
    from cache_invD(4) [OF assms(1) this] show ?thesis by (auto simp: assms(3))
  qed
qed

lemma clearExpired_eq:
  assumes "cache_inv s"
  shows "clearExpired k s =
    s\<lparr>timers := filter (\<lambda>t. timer_key t \<noteq> k) (timers s),
      cacheTimeouts := (cacheTimeouts s)(k := None)\<rparr>"
proof (cases "cacheTimeouts s k")
  case None
  have "timer_key t \<noteq> k" if "t \<in> set (timers s)" for t
    using cache_invD(2) [OF assms that] None by auto
  then have "filter (\<lambda>t. timer_key t \<noteq> k) (timers s) = timers s"
    by (simp add: filter_id_conv)
  moreover have "(cacheTimeouts s)(k := None) = cacheTimeouts s"
    using None by (simp add: fun_upd_idem)
  ultimately show ?thesis using None by (simp add: clearExpired_def)
next
  case (Some tid)
  have "(timer_id t \<noteq> tid) = (timer_key t \<noteq> k)" if t: "t \<in> set (timers s)" for t
  proof
    assume n: "timer_id t \<noteq> tid"
    show "timer_key t \<noteq> k"
    proof
      assume "timer_key t = k"
      with cache_invD(2) [OF assms t] Some n show False by simp
    qed
  next
    assume n: "timer_key t \<noteq> k"
    show "timer_id t \<noteq> tid"
    proof
      assume e: "timer_id t = tid"
      from cache_invD(4) [OF assms Some] obtain u where
        u: "u \<in> set (timers s)" "timer_id u = tid" "timer_key u = k" by blast
      from timer_id_inj [OF assms t u(1)] e u(2) have "t = u" by simp
      with n u(3) show False by simp
    qed
  qed
  then have "filter (\<lambda>t. timer_id t \<noteq> tid) (timers s) = filter (\<lambda>t. timer_key t \<noteq> k) (timers s)"
    by (auto intro: filter_cong)
  then show ?thesis using Some by (simp add: clearExpired_def clearTimeout_def)
qed

lemma setCacheWithExpiration_eq:
  assumes "cache_inv s"
  shows "setCacheWithExpiration k v ttl s =
    s\<lparr>timers := filter (\<lambda>t. timer_key t \<noteq> k) (timers s)
         @ [\<lparr>timer_id = next_timer s, timer_key = k, due = now s + timer_delay (ttl * 1000)\<rparr>],
      cacheTimeouts := (cacheTimeouts s)(k \<mapsto> next_timer s),
      memoryCache := (memoryCache s)(k \<mapsto> v),
      next_timer := next_timer s + 1\<rparr>"
  by (simp add: setCacheWithExpiration_def Let_def clearExpired_eq [OF assms] setTimeout_def)

lemma fire_eq:
  assumes "cache_inv s" "t \<in> set (timers s)"
  shows "fire s t =
    s\<lparr>memoryCache := (memoryCache s)(timer_key t := None),
      cacheTimeouts := (cacheTimeouts s)(timer_key t := None),
      timers := filter (\<lambda>u. timer_key u \<noteq> timer_key t) (timers s)\<rparr>"
proof -
  have "(timer_id u \<noteq> timer_id t) = (timer_key u \<noteq> timer_key t)" if "u \<in> set (timers s)" for u
    using timer_id_inj [OF assms(1) that assms(2)] same_key_same_timer [OF assms(1) that assms(2)]
    by auto
  then have "filter (\<lambda>u. timer_id u \<noteq> timer_id t) (timers s) =
      filter (\<lambda>u. timer_key u \<noteq> timer_key t) (timers s)"
    by (auto intro: filter_cong)
  then show ?thesis by (simp add: fire_def)
qed


lemma cache_inv_set:
  assumes "cache_inv s"
  shows "cache_inv (setCacheWithExpiration k v ttl s)"
proof -
  let ?s1 = "s\<lparr>timers := filter (\<lambda>t. timer_key t \<noteq> k) (timers s),
      cacheTimeouts := (cacheTimeouts s)(k := None)\<rparr>"
  have 1: "cache_inv ?s1" by (rule cache_inv_remove_key [OF assms, of _ k]) simp_all
  show ?thesis
    by (rule cache_inv_add_timer [OF 1, of k _ "now s + timer_delay (ttl * 1000)"])
       (simp_all add: setCacheWithExpiration_eq [OF assms])
qed

lemma cache_inv_delete:
  assumes "cache_inv s"
  shows "cache_inv (snd (deleteCache k s))"
  by (rule cache_inv_remove_key [OF assms, of _ k])
     (simp_all add: deleteCache_def Let_def clearExpired_eq [OF assms])

lemma cache_inv_fire:
  assumes "cache_inv s" "t \<in> set (timers s)"
  shows "cache_inv (fire s t)"
  by (rule cache_inv_remove_key [OF assms(1), of _ "timer_key t"])
     (simp_all add: fire_eq [OF assms])

lemma foldl_fire:
  assumes "cache_inv s" "set L \<subseteq> set (timers s)" "distinct L"
  shows "cache_inv (foldl fire s L)
    \<and> timers (foldl fire s L) = filter (\<lambda>u. timer_key u \<notin> timer_key ` set L) (timers s)
    \<and> memoryCache (foldl fire s L) =
        (\<lambda>k. if k \<in> timer_key ` set L then None else memoryCache s k)
    \<and> now (foldl fire s L) = now s"
  using assms
proof (induction L arbitrary: s)
  case Nil
  then show ?case by simp
next
  case (Cons t L)
  from Cons.prems have t: "t \<in> set (timers s)" by simp
  note eq = fire_eq [OF Cons.prems(1) t]
  have inv1: "cache_inv (fire s t)" by (rule cache_inv_fire [OF Cons.prems(1) t])
  have keys: "timer_key u \<noteq> timer_key t" if "u \<in> set L" for u
  proof
    assume "timer_key u = timer_key t"
    moreover from that Cons.prems(2) have "u \<in> set (timers s)" by auto
    ultimately have "u = t" using same_key_same_timer [OF Cons.prems(1) _ t] by blast
    with that Cons.prems(3) show False by simp
  qed
  have sub: "set L \<subseteq> set (timers (fire s t))"
    using Cons.prems(2) keys by (auto simp: eq)
  from Cons.prems(3) have dist: "distinct L" by simp
  note ih = Cons.IH [OF inv1 sub dist]
  have f: "filter (\<lambda>u. timer_key u \<notin> timer_key ` set L)
        (filter (\<lambda>u. timer_key u \<noteq> timer_key t) (timers s)) =
      filter (\<lambda>u. timer_key u \<notin> timer_key ` set (t # L)) (timers s)"
    by (auto simp: filter_filter intro: filter_cong)
  show ?case
    using ih unfolding foldl_Cons by (auto simp: eq f)
qed

lemma advance_facts:
  assumes "cache_inv s"
  shows "cache_inv (advance ms s)"
    and "now (advance ms s) = now s + ms"
    and "timers (advance ms s) = filter (\<lambda>u. \<not> due u \<le> now s + ms) (timers s)"
    and "memoryCache (advance ms s) k =
      (if \<exists>t \<in> set (timers s). timer_key t = k \<and> due t \<le> now s + ms then None
       else memoryCache s k)"
proof -
  let ?s = "s\<lparr>now := now s + ms\<rparr>"
  let ?L = "sort_key due (filter (\<lambda>t. due t \<le> now s + ms) (timers s))"
  have inv: "cache_inv ?s" using assms by (simp add: cache_inv_def)
  have sub: "set ?L \<subseteq> set (timers ?s)" by auto
  have "distinct (timers s)" using cache_invD(1) [OF assms] by (simp add: distinct_map)
  then have dist: "distinct ?L" by simp
  note ff = foldl_fire [OF inv sub dist, folded advance_def]
  from ff show "cache_inv (advance ms s)" by blast
  from ff show "now (advance ms s) = now s + ms" by simp
  have k: "(timer_key u \<notin> timer_key ` set ?L) = (\<not> due u \<le> now s + ms)"
    if u: "u \<in> set (timers s)" for u
  proof
    assume "timer_key u \<notin> timer_key ` set ?L"
    with u show "\<not> due u \<le> now s + ms" by auto
  next
    assume n: "\<not> due u \<le> now s + ms"
    show "timer_key u \<notin> timer_key ` set ?L"
    proof
      assume "timer_key u \<in> timer_key ` set ?L"
      then obtain t where t: "t \<in> set (timers s)" "due t \<le> now s + ms" "timer_key u = timer_key t"
        by auto
      from same_key_same_timer [OF assms u t(1) t(3)] t(2) n show False by simp
    qed
  qed
  from ff have "timers (advance ms s) = filter (\<lambda>u. timer_key u \<notin> timer_key ` set ?L) (timers s)"
    by simp
  also have "\<dots> = filter (\<lambda>u. \<not> due u \<le> now s + ms) (timers s)"
    using k by (auto intro: filter_cong)
  finally show "timers (advance ms s) = filter (\<lambda>u. \<not> due u \<le> now s + ms) (timers s)" .
  from ff have "memoryCache (advance ms s) k =
      (if k \<in> timer_key ` set ?L then None else memoryCache s k)" by simp
  also have "k \<in> timer_key ` set ?L \<longleftrightarrow>
      (\<exists>t \<in> set (timers s). timer_key t = k \<and> due t \<le> now s + ms)" by auto
  finally show "memoryCache (advance ms s) k =
      (if \<exists>t \<in> set (timers s). timer_key t = k \<and> due t \<le> now s + ms then None
       else memoryCache s k)" .
qed

lemma cache_inv_exec: "cache_inv s \<Longrightarrow> cache_inv (exec s op)"
  by (cases op) (simp_all add: cache_inv_set cache_inv_delete advance_facts(1))

lemma cache_inv_run: "cache_inv s \<Longrightarrow> cache_inv (run ops s)"
  unfolding run_def by (induction ops arbitrary: s) (simp_all add: cache_inv_exec)

lemma now_exec: "cache_inv s \<Longrightarrow> now s \<le> now (exec s op)"
  by (cases op)
     (simp_all add: setCacheWithExpiration_eq deleteCache_def Let_def clearExpired_eq
        advance_facts(2))

lemma now_run: "cache_inv s \<Longrightarrow> now s \<le> now (run ops s)"
  unfolding run_def
proof (induction ops arbitrary: s)
  case Nil
  then show ?case by simp
next
  case (Cons op ops)
  from Cons.IH [OF cache_inv_exec [OF Cons.prems, of op]] now_exec [OF Cons.prems, of op]
  show ?case by simp
qed

lemma exec_keeps_key:
  assumes inv: "cache_inv s"
    and nw: "\<not> writes k op"
    and nd: "\<And>t. t \<in> set (timers_of k s) \<Longrightarrow> now (exec s op) < due t"
  shows "timers_of k (exec s op) = timers_of k s \<and> memoryCache (exec s op) k = memoryCache s k"
proof (cases op)
  case (OpSet k' v ttl)
  with nw have "k' \<noteq> k" by simp
  then show ?thesis
    by (auto simp: OpSet setCacheWithExpiration_eq [OF inv] timers_of_def intro: filter_cong)
next
  case (OpGet k')
  then show ?thesis by simp
next
  case (OpDelete k')
  with nw have "k' \<noteq> k" by simp
  then show ?thesis
    by (auto simp: OpDelete deleteCache_def Let_def clearExpired_eq [OF inv] timers_of_def
        intro: filter_cong)
next
  case (OpAdvance ms)
  have nd': "\<not> due t \<le> now s + ms" if "t \<in> set (timers s)" "timer_key t = k" for t
    using nd [of t] that by (simp add: OpAdvance advance_facts(2) [OF inv] timers_of_def)
  have "timers_of k (advance ms s) = timers_of k s"
    using nd' by (auto simp: advance_facts(3) [OF inv] timers_of_def intro: filter_cong)
  moreover have "memoryCache (advance ms s) k = memoryCache s k"
    using nd' by (auto simp: advance_facts(4) [OF inv])
  ultimately show ?thesis by (simp add: OpAdvance)
qed

lemma run_keeps_key:
  assumes "cache_inv s"
    and "\<And>op. op \<in> set ops \<Longrightarrow> \<not> writes k op"
    and "\<And>t. t \<in> set (timers_of k s) \<Longrightarrow> now (run ops s) < due t"
  shows "timers_of k (run ops s) = timers_of k s \<and> memoryCache (run ops s) k = memoryCache s k"
  using assms
proof (induction ops arbitrary: s)
  case Nil
  then show ?case by (simp add: run_def)
next
  case (Cons op ops)
  have r: "run (op # ops) s = run ops (exec s op)" by (simp add: run_def)
  have inv1: "cache_inv (exec s op)" by (rule cache_inv_exec [OF Cons.prems(1)])
  have le: "now (exec s op) \<le> now (run (op # ops) s)"
    unfolding r by (rule now_run [OF inv1])
  have step: "timers_of k (exec s op) = timers_of k s
      \<and> memoryCache (exec s op) k = memoryCache s k"
  proof (rule exec_keeps_key [OF Cons.prems(1)])
    show "\<not> writes k op" using Cons.prems(2) by simp
    show "now (exec s op) < due t" if "t \<in> set (timers_of k s)" for t
      using Cons.prems(3) [OF that] le by simp
  qed
  have "timers_of k (run ops (exec s op)) = timers_of k (exec s op)
      \<and> memoryCache (run ops (exec s op)) k = memoryCache (exec s op) k"
  proof (rule Cons.IH [OF inv1])
    show "\<not> writes k op'" if "op' \<in> set ops" for op'
      using Cons.prems(2) that by simp
    show "now (run ops (exec s op)) < due t" if "t \<in> set (timers_of k (exec s op))" for t
      using Cons.prems(3) [of t] that step by (simp add: r)
  qed
  with step show ?case by (simp add: r)
qed

lemma set_facts:
  assumes "cache_inv s"
  shows "timers_of k (setCacheWithExpiration k v ttl s) =
      [\<lparr>timer_id = next_timer s, timer_key = k, due = now s + timer_delay (ttl * 1000)\<rparr>]"
    and "memoryCache (setCacheWithExpiration k v ttl s) k = Some v"
    and "now (setCacheWithExpiration k v ttl s) = now s"
  by (simp_all add: setCacheWithExpiration_eq [OF assms] timers_of_def)

lemmas cache_eval =
  run_def setCacheWithExpiration_def clearExpired_def setTimeout_def clearTimeout_def
  advance_def fire_def timer_delay_def TIMEOUT_MAX_def empty_cache_def deleteCache_def
  getCache_def getCachedResult_def cacheResult_def Let_def timers_of_def

text \<open>
  Claim C9. After \<open>set(k, v, ttl)\<close> the entry is stored and its timer is pending, and
  \<open>get(k)\<close> returns \<open>v\<close> only when \<open>v\<close> is truthy: for a falsy \<open>v\<close>, such as \<open>0\<close>, the
  empty string, \<open>false\<close> or \<open>null\<close>, both \<open>_getCache\<close> and \<open>getCachedResult\<close> return
  \<open>null\<close>.
\<close>

theorem getCache_falsy:
  "(\<not> truthy v \<longrightarrow>
      getCache k (setCacheWithExpiration k v ttl s) = JNull
      \<and> getCachedResult k (setCacheWithExpiration k v ttl s) = JNull
      \<and> getCachedResult k (snd (cacheResult k v ttl s)) = JNull)
   \<and> (truthy v \<longrightarrow>
      getCache k (setCacheWithExpiration k v ttl s) = v
      \<and> getCachedResult k (setCacheWithExpiration k v ttl s) = v)
   \<and> memoryCache (setCacheWithExpiration k v ttl s) k = Some v
   \<and> (\<exists>t \<in> set (timers (setCacheWithExpiration k v ttl s)).
        timer_key t = k \<and> now (setCacheWithExpiration k v ttl s) < due t)"
proof -
  have m: "memoryCache (setCacheWithExpiration k v ttl' s) k = Some v" for ttl'
    by (simp add: setCacheWithExpiration_def Let_def setTimeout_def clearExpired_def
        clearTimeout_def split: option.splits)
  have g: "getCache k (setCacheWithExpiration k v ttl' s) = (if truthy v then v else JNull)"
    for ttl'
    by (simp add: getCache_def m)
  have r: "getCachedResult k (setCacheWithExpiration k v ttl' s) =
      (if truthy v then v else JNull)" for ttl'
    by (simp add: getCachedResult_def g Let_def)
  have t: "\<exists>t \<in> set (timers (setCacheWithExpiration k v ttl s)).
        timer_key t = k \<and> now (setCacheWithExpiration k v ttl s) < due t"
    by (simp add: setCacheWithExpiration_def Let_def setTimeout_def clearExpired_def
        clearTimeout_def timer_delay_def split: option.splits)
  from m g r t show ?thesis by (simp add: cacheResult_def)
qed

theorem getCache_falsy_witness:
  "\<not> truthy (JNumber (Num 0) :: unit jsval)
   \<and> getCache ''q'' (setCacheWithExpiration ''q'' (JNumber (Num 0)) 600 (empty_cache :: unit cache_state))
       = JNull
   \<and> memoryCache (setCacheWithExpiration ''q'' (JNumber (Num 0)) 600 (empty_cache :: unit cache_state))
       ''q'' = Some (JNumber (Num 0))
   \<and> \<not> truthy (JString '''' :: unit jsval)
   \<and> getCachedResult ''q'' (setCacheWithExpiration ''q'' (JString '''') 600 (empty_cache :: unit cache_state))
       = JNull
   \<and> \<not> truthy (JBool False :: unit jsval)
   \<and> getCache ''q'' (setCacheWithExpiration ''q'' (JBool False) 600 (empty_cache :: unit cache_state))
       = JNull
   \<and> truthy (JString ''answer'' :: unit jsval)
   \<and> getCache ''q'' (setCacheWithExpiration ''q'' (JString ''answer'') 600 (empty_cache :: unit cache_state))
       = JString ''answer''"
  using getCache_falsy [of "JNumber (Num 0) :: unit jsval" "''q''" 600 empty_cache]
    getCache_falsy [of "JString '''' :: unit jsval" "''q''" 600 empty_cache]
    getCache_falsy [of "JBool False :: unit jsval" "''q''" 600 empty_cache]
    getCache_falsy [of "JString ''answer'' :: unit jsval" "''q''" 600 empty_cache]
  by simp

text \<open>
  Claim C1. After any history, let \<open>set(k, v, ttl)\<close> be followed, before \<open>ttl\<close> has
  elapsed, by \<open>set(k, v2, ttl2)\<close> with a lifetime within the range of the platform's
  timers, and let the original \<open>ttl\<close> elapse, but not \<open>ttl2\<close>, while no operation
  sets or deletes \<open>k\<close>. Then the only pending timer of \<open>k\<close> after the second set is
  the new one, the entry of \<open>k\<close> still holds \<open>v2\<close>, and \<open>get(k)\<close> returns \<open>v2\<close> when
  \<open>v2\<close> is truthy. In every state that a history of operations reaches from the empty
  cache, every key has at most one pending timer.
\<close>

theorem set_replaces_timer:
  fixes hist mid post :: "'o cache_op list"
  assumes s1: "s1 = run (hist @ [OpSet k v ttl]) empty_cache"
    and s2: "s2 = run mid s1"
    and early: "now s2 < now s1 + ttl * 1000"
    and s3: "s3 = exec s2 (OpSet k v2 ttl2)"
    and s4: "s4 = run post s3"
    and post: "\<forall>op \<in> set post. \<not> writes k op"
    and late: "now s1 + ttl * 1000 \<le> now s4"
    and live: "now s4 < now s3 + ttl2 * 1000"
    and max: "ttl2 * 1000 \<le> TIMEOUT_MAX"
  shows "timers_of k s3 =
      [\<lparr>timer_id = next_timer s2, timer_key = k, due = now s3 + ttl2 * 1000\<rparr>]
    \<and> memoryCache s4 k = Some v2
    \<and> getCache k s4 = (if truthy v2 then v2 else JNull)
    \<and> (\<forall>ops key. length (timers_of key (run ops (empty_cache :: 'o cache_state))) \<le> 1)"
proof -
  have inv1: "cache_inv s1" unfolding s1 by (rule cache_inv_run [OF cache_inv_empty])
  have inv2: "cache_inv s2" unfolding s2 by (rule cache_inv_run [OF inv1])
  have inv3: "cache_inv s3" unfolding s3 by (rule cache_inv_exec [OF inv2])
  have n3: "now s3 = now s2" by (simp add: s3 set_facts(3) [OF inv2])
  have "now s3 \<le> now s4" unfolding s4 by (rule now_run [OF inv3])
  with live have pos: "1 \<le> ttl2 * 1000" by simp
  with max have d: "timer_delay (ttl2 * 1000) = ttl2 * 1000" by (simp add: timer_delay_def)
  have t3: "timers_of k s3 =
      [\<lparr>timer_id = next_timer s2, timer_key = k, due = now s3 + ttl2 * 1000\<rparr>]"
    by (simp add: s3 set_facts(1) [OF inv2] set_facts(3) [OF inv2] d)
  have m3: "memoryCache s3 k = Some v2" by (simp add: s3 set_facts(2) [OF inv2])
  have keep: "timers_of k (run post s3) = timers_of k s3
      \<and> memoryCache (run post s3) k = memoryCache s3 k"
  proof (rule run_keeps_key [OF inv3])
    show "\<not> writes k op" if "op \<in> set post" for op using post that by blast
    show "now (run post s3) < due t" if "t \<in> set (timers_of k s3)" for t
      using that live by (simp add: t3 s4)
  qed
  then have m4: "memoryCache s4 k = Some v2" by (simp add: s4 m3)
  then have g: "getCache k s4 = (if truthy v2 then v2 else JNull)" by (simp add: getCache_def)
  have u: "length (timers_of key (run ops (empty_cache :: 'o cache_state))) \<le> 1" for ops key
    by (rule cache_inv_unique [OF cache_inv_run [OF cache_inv_empty]])
  from t3 m4 g u show ?thesis by blast
qed

theorem set_replaces_timer_witness:
  "now (run [OpSet ''q'' (JString ''old'') 300] (empty_cache :: unit cache_state)) = 0
   \<and> now (run [OpSet ''q'' (JString ''old'') 300, OpAdvance 100000]
          (empty_cache :: unit cache_state)) = 100000
   \<and> now (run [OpSet ''q'' (JString ''old'') 300, OpAdvance 100000,
               OpSet ''q'' (JString ''new'') 600, OpGet ''q'', OpSet ''z'' JNull 1,
               OpAdvance 250000]
          (empty_cache :: unit cache_state)) = 350000
   \<and> getCache ''q''
        (run [OpSet ''q'' (JString ''old'') 300, OpAdvance 100000,
              OpSet ''q'' (JString ''new'') 600, OpGet ''q'', OpSet ''z'' JNull 1,
              OpAdvance 250000]
          (empty_cache :: unit cache_state)) = JString ''new''"
proof -
  let ?e = "empty_cache :: unit cache_state"
  let ?s1 = "run ([] @ [OpSet ''q'' (JString ''old'') 300]) ?e"
  let ?s2 = "run [OpAdvance 100000] ?s1"
  let ?s3 = "exec ?s2 (OpSet ''q'' (JString ''new'') 600)"
  let ?post = "[OpGet ''q'', OpSet ''z'' JNull 1, OpAdvance 250000] :: unit cache_op list"
  let ?s4 = "run ?post ?s3"
  have n1: "now ?s1 = 0" by (simp add: cache_eval)
  have n2: "now ?s2 = 100000" by (simp add: cache_eval)
  have n3: "now ?s3 = 100000" by (simp add: cache_eval)
  have n4: "now ?s4 = 350000" by (simp add: cache_eval)
  have p: "\<forall>op \<in> set ?post. \<not> writes ''q'' op" by simp
  have early: "now ?s2 < now ?s1 + 300 * 1000" unfolding n1 n2 by simp
  have late: "now ?s1 + 300 * 1000 \<le> now ?s4" unfolding n1 n4 by simp
  have live: "now ?s4 < now ?s3 + 600 * 1000" unfolding n3 n4 by simp
  have max: "600 * 1000 \<le> TIMEOUT_MAX" by (simp add: TIMEOUT_MAX_def)
  note th = set_replaces_timer [OF refl refl early refl refl p late live max]
  from th have g: "getCache ''q'' ?s4 = JString ''new''" by simp
  have r: "run [OpSet ''q'' (JString ''old'') 300, OpAdvance 100000,
              OpSet ''q'' (JString ''new'') 600, OpGet ''q'', OpSet ''z'' JNull 1,
              OpAdvance 250000] ?e = ?s4"
    by (simp add: run_def)
  have r2: "run [OpSet ''q'' (JString ''old'') 300, OpAdvance 100000] ?e = ?s2"
    by (simp add: run_def)
  show ?thesis unfolding r r2 using n1 n2 n4 g by simp
qed

text \<open>
  The read after the original lifetime does not return every \<open>v2\<close>: the stored \<open>0\<close>
  is read as \<open>null\<close>. And a second lifetime of 3000000 seconds is beyond the range of
  the timers of Node.js (\<open>2^31 - 1\<close> milliseconds): its timer is due after 1
  millisecond, and the entry is gone long before the lifetime has elapsed.
\<close>

theorem set_replaces_timer_counterexample:
  "memoryCache
     (run [OpSet ''q'' (JString ''old'') 300, OpAdvance 100000,
           OpSet ''q'' (JNumber (Num 0)) 600, OpAdvance 250000]
        (empty_cache :: unit cache_state)) ''q'' = Some (JNumber (Num 0))
   \<and> getCache ''q''
     (run [OpSet ''q'' (JString ''old'') 300, OpAdvance 100000,
           OpSet ''q'' (JNumber (Num 0)) 600, OpAdvance 250000]
        (empty_cache :: unit cache_state)) = JNull
   \<and> now
     (run [OpSet ''q'' (JString ''old'') 300, OpAdvance 100000,
           OpSet ''q'' (JString ''new'') 3000000, OpAdvance 250000]
        (empty_cache :: unit cache_state)) = 350000
   \<and> getCache ''q''
     (run [OpSet ''q'' (JString ''old'') 300, OpAdvance 100000,
           OpSet ''q'' (JString ''new'') 3000000, OpAdvance 250000]
        (empty_cache :: unit cache_state)) = JNull"
  by (simp add: cache_eval)

section \<open>Properties of the two query paths\<close>

lemma foldl_fire_memory:
  "memoryCache (foldl fire s L) k = None \<or> memoryCache (foldl fire s L) k = memoryCache s k"
proof (induction L arbitrary: s)
  case Nil
  then show ?case by simp
next
  case (Cons t L)
  have "memoryCache (fire s t) k = None \<or> memoryCache (fire s t) k = memoryCache s k"
    by (simp add: fire_def)
  with Cons.IH [of "fire s t"] show ?case by auto
qed

lemma getCachedResult_advance:
  assumes "\<not> truthy (getCachedResult k s)"
  shows "\<not> truthy (getCachedResult k (advance ms s))"
proof -
  have "memoryCache (advance ms s) k = None \<or> memoryCache (advance ms s) k = memoryCache s k"
    unfolding advance_def using foldl_fire_memory [of "s\<lparr>now := now s + ms\<rparr>"] by simp
  then show ?thesis
    using assms by (auto simp: getCachedResult_def getCache_def Let_def split: option.splits)
qed

text \<open>
  A request with a valid query that misses the cache and gets data from the backend:
  the response carries the verdict; a valid response is written to the cache under
  the key of the request and is found there afterwards; a gated response is returned,
  nothing is written, and the key is still not found.
\<close>

lemma gate_paths:
  assumes q: "valid_query (rq_query req) = Some q"
  shows
    "(\<not> truthy (getCachedResult (''search:'' @ q @ '':'' @ show_nat (top_k_of req)) s) \<longrightarrow>
        (let key = ''search:'' @ q @ '':'' @ show_nat (top_k_of req);
             v = validateRetrievalQuality (sd_results sd) (map format_result (sd_results sd));
             (resp, s', w) = searchDocuments req (Inr sd) wait elapsed s
         in \<exists>r. resp = Json200 (JObject (SearchResponse r))
              \<and> sr_retrieval_gated r = (\<not> isValid v)
              \<and> (isValid v \<longrightarrow>
                   w = [(key, JObject (SearchResponse r), getCacheTTL q)]
                   \<and> s' = snd (cacheResult key (JObject (SearchResponse r)) (getCacheTTL q)
                               (advance wait s))
                   \<and> getCachedResult key s' = JObject (SearchResponse r))
              \<and> (\<not> isValid v \<longrightarrow>
                   w = [] \<and> s' = advance wait s \<and> \<not> truthy (getCachedResult key s'))))
     \<and> (\<not> truthy (getCachedResult (''llm:'' @ q @ '':'' @ show_nat (top_k_of req)) s) \<longrightarrow>
        (let key = ''llm:'' @ q @ '':'' @ show_nat (top_k_of req);
             v = validateRetrievalQuality (ld_sources ld) (map format_result (ld_sources ld));
             (resp, s', w) = queryDocumentsWithLLM req (Inr ld) wait elapsed s
         in \<exists>r. resp = Json200 (JObject (LlmResponse r))
              \<and> lr_retrieval_gated r = (\<not> isValid v)
              \<and> (isValid v \<longrightarrow>
                   w = [(key, JObject (LlmResponse r), getCacheTTL q)]
                   \<and> s' = snd (cacheResult key (JObject (LlmResponse r)) (getCacheTTL q)
                               (advance wait s))
                   \<and> getCachedResult key s' = JObject (LlmResponse r))
              \<and> (\<not> isValid v \<longrightarrow>
                   w = [] \<and> s' = advance wait s \<and> \<not> truthy (getCachedResult key s'))))"
proof (intro conjI impI)
  let ?sk = "''search:'' @ q @ '':'' @ show_nat (top_k_of req)"
  let ?lk = "''llm:'' @ q @ '':'' @ show_nat (top_k_of req)"
  have stored: "getCachedResult k (snd (cacheResult k (JObject p) ttl s0)) = JObject p"
    for k p ttl and s0 :: "payload cache_state"
    by (simp add: cacheResult_def getCachedResult_def getCache_def Let_def
        setCacheWithExpiration_def setTimeout_def clearExpired_def clearTimeout_def
        split: option.splits)
  {
    assume miss: "\<not> truthy (getCachedResult ?sk s)"
    note adv = getCachedResult_advance [OF miss, of wait]
    show "let key = ?sk;
             v = validateRetrievalQuality (sd_results sd) (map format_result (sd_results sd));
             (resp, s', w) = searchDocuments req (Inr sd) wait elapsed s
         in \<exists>r. resp = Json200 (JObject (SearchResponse r))
              \<and> sr_retrieval_gated r = (\<not> isValid v)
              \<and> (isValid v \<longrightarrow>
                   w = [(key, JObject (SearchResponse r), getCacheTTL q)]
                   \<and> s' = snd (cacheResult key (JObject (SearchResponse r)) (getCacheTTL q)
                               (advance wait s))
                   \<and> getCachedResult key s' = JObject (SearchResponse r))
              \<and> (\<not> isValid v \<longrightarrow>
                   w = [] \<and> s' = advance wait s \<and> \<not> truthy (getCachedResult key s'))"
      using miss adv
      by (cases "isValid (validateRetrievalQuality (sd_results sd)
            (map format_result (sd_results sd)))")
         (simp_all add: searchDocuments_def q Let_def stored)
  }
  {
    assume miss: "\<not> truthy (getCachedResult ?lk s)"
    note adv = getCachedResult_advance [OF miss, of wait]
    show "let key = ?lk;
             v = validateRetrievalQuality (ld_sources ld) (map format_result (ld_sources ld));
             (resp, s', w) = queryDocumentsWithLLM req (Inr ld) wait elapsed s
         in \<exists>r. resp = Json200 (JObject (LlmResponse r))
              \<and> lr_retrieval_gated r = (\<not> isValid v)
              \<and> (isValid v \<longrightarrow>
                   w = [(key, JObject (LlmResponse r), getCacheTTL q)]
                   \<and> s' = snd (cacheResult key (JObject (LlmResponse r)) (getCacheTTL q)
                               (advance wait s))
                   \<and> getCachedResult key s' = JObject (LlmResponse r))
              \<and> (\<not> isValid v \<longrightarrow>
                   w = [] \<and> s' = advance wait s \<and> \<not> truthy (getCachedResult key s'))"
      using miss adv
      by (cases "isValid (validateRetrievalQuality (ld_sources ld)
            (map format_result (ld_sources ld)))")
         (simp_all add: queryDocumentsWithLLM_def q Let_def stored)
  }
qed

lemma search_writes_iff:
  "snd (snd (searchDocuments req backend wait elapsed s)) \<noteq> [] \<longleftrightarrow>
     (\<exists>q sd. valid_query (rq_query req) = Some q
        \<and> \<not> truthy (getCachedResult (''search:'' @ q @ '':'' @ show_nat (top_k_of req)) s)
        \<and> backend = Inr sd
        \<and> isValid (validateRetrievalQuality (sd_results sd) (map format_result (sd_results sd))))"
proof (cases "valid_query (rq_query req)")
  case None
  then show ?thesis by (simp add: searchDocuments_def)
next
  case (Some q)
  show ?thesis
  proof (cases "truthy (getCachedResult (''search:'' @ q @ '':'' @ show_nat (top_k_of req)) s)")
    case True
    then show ?thesis
      by (simp add: searchDocuments_def Some Let_def split: jsval.splits payload.splits)
  next
    case False
    then show ?thesis
      by (cases backend) (simp_all add: searchDocuments_def Some Let_def)
  qed
qed

lemma llm_writes_iff:
  "snd (snd (queryDocumentsWithLLM req backend wait elapsed s)) \<noteq> [] \<longleftrightarrow>
     (\<exists>q ld. valid_query (rq_query req) = Some q
        \<and> \<not> truthy (getCachedResult (''llm:'' @ q @ '':'' @ show_nat (top_k_of req)) s)
        \<and> backend = Inr ld
        \<and> isValid (validateRetrievalQuality (ld_sources ld) (map format_result (ld_sources ld))))"
proof (cases "valid_query (rq_query req)")
  case None
  then show ?thesis by (simp add: queryDocumentsWithLLM_def)
next
  case (Some q)
  show ?thesis
  proof (cases "truthy (getCachedResult (''llm:'' @ q @ '':'' @ show_nat (top_k_of req)) s)")
    case True
    then show ?thesis
      by (simp add: queryDocumentsWithLLM_def Some Let_def split: jsval.splits payload.splits)
  next
    case False
    then show ?thesis
      by (cases backend) (simp_all add: queryDocumentsWithLLM_def Some Let_def)
  qed
qed

text \<open>
  Claim C6. On the search path and on the path of the generated answer, the handler
  writes to the cache if and only if the request reaches the quality gate (valid
  query, cache miss, data from the backend) and the verdict is valid. A gated response
  is returned to the caller and is not stored.
\<close>

theorem cache_write_iff_valid:
  "(snd (snd (searchDocuments req sb wait elapsed s)) \<noteq> [] \<longleftrightarrow>
     (\<exists>q sd. valid_query (rq_query req) = Some q
        \<and> \<not> truthy (getCachedResult (''search:'' @ q @ '':'' @ show_nat (top_k_of req)) s)
        \<and> sb = Inr sd
        \<and> isValid (validateRetrievalQuality (sd_results sd) (map format_result (sd_results sd)))))
   \<and> (snd (snd (queryDocumentsWithLLM req lb wait elapsed s)) \<noteq> [] \<longleftrightarrow>
     (\<exists>q ld. valid_query (rq_query req) = Some q
        \<and> \<not> truthy (getCachedResult (''llm:'' @ q @ '':'' @ show_nat (top_k_of req)) s)
        \<and> lb = Inr ld
        \<and> isValid (validateRetrievalQuality (ld_sources ld) (map format_result (ld_sources ld)))))
   \<and> (valid_query (rq_query req) = Some q \<longrightarrow>
     (\<not> truthy (getCachedResult (''search:'' @ q @ '':'' @ show_nat (top_k_of req)) s) \<longrightarrow>
          (let key = ''search:'' @ q @ '':'' @ show_nat (top_k_of req);
               v = validateRetrievalQuality (sd_results sd) (map format_result (sd_results sd));
               (resp, s', w) = searchDocuments req (Inr sd) wait elapsed s
           in \<exists>r. resp = Json200 (JObject (SearchResponse r))
                \<and> sr_retrieval_gated r = (\<not> isValid v)
                \<and> (isValid v \<longrightarrow>
                     w = [(key, JObject (SearchResponse r), getCacheTTL q)]
                     \<and> s' = snd (cacheResult key (JObject (SearchResponse r)) (getCacheTTL q)
                                 (advance wait s))
                     \<and> getCachedResult key s' = JObject (SearchResponse r))
                \<and> (\<not> isValid v \<longrightarrow>
                     w = [] \<and> s' = advance wait s \<and> \<not> truthy (getCachedResult key s'))))
       \<and> (\<not> truthy (getCachedResult (''llm:'' @ q @ '':'' @ show_nat (top_k_of req)) s) \<longrightarrow>
          (let key = ''llm:'' @ q @ '':'' @ show_nat (top_k_of req);
               v = validateRetrievalQuality (ld_sources ld) (map format_result (ld_sources ld));
               (resp, s', w) = queryDocumentsWithLLM req (Inr ld) wait elapsed s
           in \<exists>r. resp = Json200 (JObject (LlmResponse r))
                \<and> lr_retrieval_gated r = (\<not> isValid v)
                \<and> (isValid v \<longrightarrow>
                     w = [(key, JObject (LlmResponse r), getCacheTTL q)]
                     \<and> s' = snd (cacheResult key (JObject (LlmResponse r)) (getCacheTTL q)
                                 (advance wait s))
                     \<and> getCachedResult key s' = JObject (LlmResponse r))
                \<and> (\<not> isValid v \<longrightarrow>
                     w = [] \<and> s' = advance wait s \<and> \<not> truthy (getCachedResult key s')))))"
  apply (intro conjI)
    apply (rule search_writes_iff)
   apply (rule llm_writes_iff)
  apply (rule impI)
  apply (erule gate_paths)
  done

theorem cache_write_iff_valid_witness:
  "valid_query (JString ''install api'') = Some ''install api''
   \<and> getCachedResult ''search:install api:5'' (empty_cache :: payload cache_state) = JNull
   \<and> getCachedResult ''llm:install api:5'' (empty_cache :: payload cache_state) = JNull
   \<and> isValid (validateRetrievalQuality [raw ''c1'' ''alpha'' (1 / 2) None None]
        (map format_result [raw ''c1'' ''alpha'' (1 / 2) None None]))
   \<and> \<not> isValid (validateRetrievalQuality [raw ''c1'' ''alpha'' (1 / 20) None None]
        (map format_result [raw ''c1'' ''alpha'' (1 / 20) None None]))
   \<and> snd (snd (searchDocuments
        \<lparr>rq_query = JString ''install api'', rq_user_id = None, rq_top_k = None\<rparr>
        (Inr \<lparr>sd_query = ''install api'',
              sd_results = [raw ''c1'' ''alpha'' (1 / 20) None None],
              sd_query_embedding = []\<rparr>) 40 50 empty_cache)) = []
   \<and> snd (snd (searchDocuments
        \<lparr>rq_query = JString ''install api'', rq_user_id = None, rq_top_k = None\<rparr>
        (Inr \<lparr>sd_query = ''install api'',
              sd_results = [raw ''c1'' ''alpha'' (1 / 2) None None],
              sd_query_embedding = []\<rparr>) 40 50 empty_cache)) \<noteq> []
   \<and> snd (snd (queryDocumentsWithLLM
        \<lparr>rq_query = JString ''install api'', rq_user_id = None, rq_top_k = None\<rparr>
        (Inr \<lparr>ld_query = ''install api'', ld_answer = ''Run the installer.'',
              ld_sources = [raw ''c1'' ''alpha'' (1 / 20) None None],
              ld_query_embedding = []\<rparr>) 40 50 empty_cache)) = []
   \<and> snd (snd (queryDocumentsWithLLM
        \<lparr>rq_query = JString ''install api'', rq_user_id = None, rq_top_k = None\<rparr>
        (Inr \<lparr>ld_query = ''install api'', ld_answer = ''Run the installer.'',
              ld_sources = [raw ''c1'' ''alpha'' (1 / 2) None None],
              ld_query_embedding = []\<rparr>) 40 50 empty_cache)) \<noteq> []"
proof -
  let ?req = "\<lparr>rq_query = JString ''install api'', rq_user_id = None, rq_top_k = None\<rparr>"
  let ?lo = "[raw ''c1'' ''alpha'' (1 / 20) None None]"
  let ?hi = "[raw ''c1'' ''alpha'' (1 / 2) None None]"
  let ?e = "empty_cache :: payload cache_state"
  have q: "valid_query (rq_query ?req) = Some ''install api''"
    by (simp add: valid_query_def trim_def is_space_def)
  have q': "valid_query (JString ''install api'') = Some ''install api''"
    using q by simp
  have k: "show_nat (top_k_of ?req) = ''5''"
    by (simp add: top_k_of_def show_nat.simps digit_chars_def)
  have ms: "getCachedResult ''search:install api:5'' ?e = JNull"
    and ml: "getCachedResult ''llm:install api:5'' ?e = JNull"
    by (simp_all add: getCachedResult_def getCache_def empty_cache_def)
  have ms': "\<not> truthy (getCachedResult (''search:'' @ ''install api'' @ '':'' @ show_nat (top_k_of ?req)) ?e)"
    unfolding k using ms by simp
  have ml': "\<not> truthy (getCachedResult (''llm:'' @ ''install api'' @ '':'' @ show_nat (top_k_of ?req)) ?e)"
    unfolding k using ml by simp
  have hi: "isValid (validateRetrievalQuality ?hi (map format_result ?hi))"
    by (subst validate_high [where m = "1 / 2"])
       (simp_all add: math_max_def format_result_def raw_def new_Set_def set_add_def)
  have lo: "\<not> isValid (validateRetrievalQuality ?lo (map format_result ?lo))"
    by (subst validate_low [where m = "1 / 20"])
       (simp_all add: math_max_def format_result_def raw_def)
  have s_lo: "snd (snd (searchDocuments ?req
        (Inr \<lparr>sd_query = ''install api'', sd_results = ?lo, sd_query_embedding = []\<rparr>)
        40 50 ?e)) = []"
    using cache_write_iff_valid [where req = ?req and s = ?e and wait = 40 and elapsed = 50
      and sb = "Inr \<lparr>sd_query = ''install api'', sd_results = ?lo,
      sd_query_embedding = []\<rparr>", THEN conjunct1] lo
    by auto
  have s_hi: "snd (snd (searchDocuments ?req
        (Inr \<lparr>sd_query = ''install api'', sd_results = ?hi, sd_query_embedding = []\<rparr>)
        40 50 ?e)) \<noteq> []"
    using cache_write_iff_valid [where req = ?req and s = ?e and wait = 40 and elapsed = 50
      and sb = "Inr \<lparr>sd_query = ''install api'', sd_results = ?hi,
      sd_query_embedding = []\<rparr>", THEN conjunct1] hi q ms'
    by auto
  have l_lo: "snd (snd (queryDocumentsWithLLM ?req
        (Inr \<lparr>ld_query = ''install api'', ld_answer = ''Run the installer.'',
              ld_sources = ?lo, ld_query_embedding = []\<rparr>) 40 50 ?e)) = []"
    using cache_write_iff_valid [where req = ?req and s = ?e and wait = 40 and elapsed = 50
      and lb = "Inr \<lparr>ld_query = ''install api'',
      ld_answer = ''Run the installer.'', ld_sources = ?lo, ld_query_embedding = []\<rparr>", THEN conjunct2, THEN conjunct1] lo
    by auto
  have l_hi: "snd (snd (queryDocumentsWithLLM ?req
        (Inr \<lparr>ld_query = ''install api'', ld_answer = ''Run the installer.'',
              ld_sources = ?hi, ld_query_embedding = []\<rparr>) 40 50 ?e)) \<noteq> []"
    using cache_write_iff_valid [where req = ?req and s = ?e and wait = 40 and elapsed = 50
      and lb = "Inr \<lparr>ld_query = ''install api'',
      ld_answer = ''Run the installer.'', ld_sources = ?hi, ld_query_embedding = []\<rparr>", THEN conjunct2, THEN conjunct1] hi q ml'
    by auto
  show ?thesis
    by (intro conjI) (rule q' ms ml hi lo s_lo s_hi l_lo l_hi)+
qed

end
